theory Spec2Isabelle
  imports Complex_Main "HOL-Library.Multiset" "HOL-Library.Log_Nat"
begin

section \<open>The arithmetic of \<open>double\<close>\<close>

text \<open>
  A \<open>double\<close> is an IEEE 754 binary64 number: a real number with a 53-bit significand
  and an exponent from -1022 to 1023, one of the two infinities, or a NaN. The two zeros
  are one value here (the program never divides by a negative zero). \<open>Fin r\<close> with a real
  \<open>r\<close> that is not a binary64 number denotes no \<open>double\<close>; every operation below
  returns its result through \<open>to_double\<close>.
\<close>

datatype double = Fin real | PInf | NInf | NaN

text \<open>
  The exponent \<open>e\<close> with \<open>2\<^sup>e \<le> x < 2\<^sup>e\<^sup>+\<^sup>1\<close> for \<open>x > 0\<close>; \<open>x * 2\<^sup>e\<close>; the
  exponent of the spacing of the binary64 numbers around \<open>x\<close> (that of the
  subnormal numbers below \<open>2\<^sup>-\<^sup>1\<^sup>0\<^sup>2\<^sup>2\<close>); and the nearest integer with ties to even.
\<close>

definition binade :: "real \<Rightarrow> int" where
  "binade x = (if 1 \<le> x then bitlen \<lfloor>x\<rfloor> - 1 else - bitlen (\<lceil>1 / x\<rceil> - 1))"

definition scale2 :: "int \<Rightarrow> real \<Rightarrow> real" where
  "scale2 e x = (if 0 \<le> e then x * of_int (2 ^ nat e) else x / of_int (2 ^ nat (- e)))"

definition ulp_exponent :: "real \<Rightarrow> int" where
  "ulp_exponent x = max (binade \<bar>x\<bar>) (- 1022) - 52"

definition rne :: "real \<Rightarrow> int" where
  "rne r = (let f = \<lfloor>r\<rfloor>; d = r - of_int f
            in if d < 1 / 2 then f else if 1 / 2 < d then f + 1
               else if even f then f else f + 1)"

text \<open>\<open>huge\<close> is \<open>2\<^sup>1\<^sup>0\<^sup>2\<^sup>4\<close>: a result that rounds to it or above overflows.\<close>

definition huge :: real where
  "huge = 179769313486231590772930519078902473361797697894230657273430081157732675805500963132708477322407536021120113879871393357658789768814416622492847430639474124377767893424865485276302219601246094119453082952085005768838150682342462881473913110540827237163350510684586298239947245938479716304835356329624224137216"

definition overflow :: "real \<Rightarrow> double" where
  "overflow x = (if 0 < x then PInf else NInf)"

text \<open>Rounding to nearest, ties to even: the default mode, which the program never changes.\<close>

definition to_double :: "real \<Rightarrow> double" where
  "to_double x =
     (if x = 0 then Fin 0
      else if huge \<le> \<bar>x\<bar> then overflow x
      else let e = ulp_exponent x; r = scale2 e (of_int (rne (scale2 (- e) x)))
           in if huge \<le> \<bar>r\<bar> then overflow r else Fin r)"

text \<open>
  The operations \<open>+\<close>, \<open>-\<close>, \<open>*\<close>, \<open>/\<close> and the comparisons of two \<open>double\<close>s.
  Each operation rounds its exact result once, to \<open>double\<close>: the program is taken
  to be compiled so that an expression of type \<open>double\<close> is evaluated in that format
  and a product is not fused with the sum that follows it. A comparison with a NaN is
  false.
\<close>

fun dadd :: "double \<Rightarrow> double \<Rightarrow> double" where
  "dadd (Fin x) (Fin y) = to_double (x + y)"
| "dadd NaN _ = NaN"
| "dadd _ NaN = NaN"
| "dadd PInf NInf = NaN"
| "dadd NInf PInf = NaN"
| "dadd PInf _ = PInf"
| "dadd _ PInf = PInf"
| "dadd NInf _ = NInf"
| "dadd _ NInf = NInf"

fun dneg :: "double \<Rightarrow> double" where
  "dneg (Fin x) = Fin (- x)"
| "dneg PInf = NInf"
| "dneg NInf = PInf"
| "dneg NaN = NaN"

text \<open>The sign of the product of an infinity and a finite number that is not zero.\<close>

definition signed_inf :: "bool \<Rightarrow> double" where
  "signed_inf positive = (if positive then PInf else NInf)"

fun dmul :: "double \<Rightarrow> double \<Rightarrow> double" where
  "dmul (Fin x) (Fin y) = to_double (x * y)"
| "dmul NaN _ = NaN"
| "dmul _ NaN = NaN"
| "dmul PInf (Fin y) = (if y = 0 then NaN else signed_inf (0 < y))"
| "dmul NInf (Fin y) = (if y = 0 then NaN else signed_inf (y < 0))"
| "dmul (Fin x) PInf = (if x = 0 then NaN else signed_inf (0 < x))"
| "dmul (Fin x) NInf = (if x = 0 then NaN else signed_inf (x < 0))"
| "dmul PInf PInf = PInf"
| "dmul NInf NInf = PInf"
| "dmul PInf NInf = NInf"
| "dmul NInf PInf = NInf"

fun ddiv :: "double \<Rightarrow> double \<Rightarrow> double" where
  "ddiv (Fin x) (Fin y) =
     (if y = 0 then (if x = 0 then NaN else signed_inf (0 < x)) else to_double (x / y))"
| "ddiv NaN _ = NaN"
| "ddiv _ NaN = NaN"
| "ddiv (Fin x) PInf = Fin 0"
| "ddiv (Fin x) NInf = Fin 0"
| "ddiv PInf (Fin y) = signed_inf (0 \<le> y)"
| "ddiv NInf (Fin y) = signed_inf (y < 0)"
| "ddiv PInf PInf = NaN"
| "ddiv PInf NInf = NaN"
| "ddiv NInf PInf = NaN"
| "ddiv NInf NInf = NaN"

fun dless :: "double \<Rightarrow> double \<Rightarrow> bool" where
  "dless (Fin x) (Fin y) \<longleftrightarrow> x < y"
| "dless NaN _ \<longleftrightarrow> False"
| "dless _ NaN \<longleftrightarrow> False"
| "dless PInf _ \<longleftrightarrow> False"
| "dless _ NInf \<longleftrightarrow> False"
| "dless NInf _ \<longleftrightarrow> True"
| "dless _ PInf \<longleftrightarrow> True"

fun dle :: "double \<Rightarrow> double \<Rightarrow> bool" where
  "dle (Fin x) (Fin y) \<longleftrightarrow> x \<le> y"
| "dle NaN _ \<longleftrightarrow> False"
| "dle _ NaN \<longleftrightarrow> False"
| "dle NInf _ \<longleftrightarrow> True"
| "dle _ PInf \<longleftrightarrow> True"
| "dle PInf _ \<longleftrightarrow> False"
| "dle _ NInf \<longleftrightarrow> False"

instantiation double :: "{zero, plus, minus, uminus, times, inverse, ord}"
begin

definition zero_double :: double where "zero_double = Fin 0"
definition plus_double :: "double \<Rightarrow> double \<Rightarrow> double" where "plus_double = dadd"
definition uminus_double :: "double \<Rightarrow> double" where "uminus_double = dneg"
definition minus_double :: "double \<Rightarrow> double \<Rightarrow> double" where "minus_double x y = dadd x (dneg y)"
definition times_double :: "double \<Rightarrow> double \<Rightarrow> double" where "times_double = dmul"
definition divide_double :: "double \<Rightarrow> double \<Rightarrow> double" where "divide_double = ddiv"
definition inverse_double :: "double \<Rightarrow> double" where "inverse_double x = ddiv (Fin 1) x"
definition less_double :: "double \<Rightarrow> double \<Rightarrow> bool" where "less_double = dless"
definition less_eq_double :: "double \<Rightarrow> double \<Rightarrow> bool" where "less_eq_double = dle"

instance ..

end

text \<open>
  The conversion of an integer to \<open>double\<close>, and \<open>(int)\<close> of a \<open>double\<close>: the
  fraction is dropped, and the behaviour is undefined (\<open>None\<close>) when the result is not
  an \<open>int\<close> (of 32 bits), as for an infinity or a NaN.
\<close>

definition double_of_nat :: "nat \<Rightarrow> double" where
  "double_of_nat n = to_double (real n)"

definition int_cast :: "double \<Rightarrow> int option" where
  "int_cast d =
     (case d of
        Fin r \<Rightarrow> (let t = (if 0 \<le> r then \<lfloor>r\<rfloor> else \<lceil>r\<rceil>)
                  in if - (2 ^ 31) \<le> t \<and> t < 2 ^ 31 then Some t else None)
      | _ \<Rightarrow> None)"


section \<open>The STREAM benchmark (stream.c): configuration and buffers\<close>

text \<open>
  The program is configured by preprocessor macros. \<open>config\<close> collects the ones the
  code below depends on: the array sizes, the padding \<open>OFFSET\<close>, the value given
  with \<^verbatim>\<open>-DNTIMES=\<close> (\<open>None\<close> when the macro is not given), the four
  feature macros, the size in bytes of \<open>STREAM_TYPE\<close>, and the number of bits of
  \<open>INDEX_TYPE\<close> (32 for the default \<open>int\<close>).
\<close>

record config =
  STREAM_ARRAY_SIZE :: nat
  STREAM_INDEX_ARRAY_SIZE :: nat
  OFFSET :: nat
  NTIMES_given :: "int option"
  ENABLE_GATHER :: bool
  ENABLE_SCATTER :: bool
  ENABLE_INDIRECT_DOT_PRODUCT :: bool
  PERMUTE_INDEX_ARRAY :: bool
  sizeof_STREAM_TYPE :: nat
  INDEX_TYPE_bits :: nat

text \<open>
  \<^verbatim>\<open>#ifdef NTIMES / #if NTIMES<=1 / # define NTIMES 10\<close> and
  \<^verbatim>\<open>#ifndef NTIMES / # define NTIMES 10\<close>: a trial count of at most 1 is
  replaced by 10, and so is a missing one.
\<close>

definition NTIMES :: "config \<Rightarrow> nat" where
  "NTIMES cf = (case NTIMES_given cf of
                  None \<Rightarrow> 10
                | Some n \<Rightarrow> (if n \<le> 1 then 10 else nat n))"

definition indexed_kernels :: "config \<Rightarrow> bool" where
  "indexed_kernels cf \<longleftrightarrow>
     ENABLE_GATHER cf \<or> ENABLE_SCATTER cf \<or> ENABLE_INDIRECT_DOT_PRODUCT cf"

definition NUM_KERNELS :: "config \<Rightarrow> nat" where
  "NUM_KERNELS cf = 4 + (if ENABLE_GATHER cf then 1 else 0)
                      + (if ENABLE_SCATTER cf then 1 else 0)
                      + (if ENABLE_INDIRECT_DOT_PRODUCT cf then 1 else 0)"

text \<open>
  The static arrays \<open>a, b, c, d, i, e\<close> and the scalar \<open>x\<close>. The element type
  \<open>STREAM_TYPE\<close> is the type parameter \<open>'a\<close>, with the operations of its type
  classes as its arithmetic: \<open>double\<close> above is one such type, and nothing below
  assumes a law (associativity, distributivity, an order) of these operations. The
  entries of \<open>i\<close> are the values of the signed integer type \<open>INDEX_TYPE\<close>. An array
  that the configuration does not declare stays the empty list.

  What the program does between \<open>STREAM_TYPE\<close> and the \<open>double\<close> constants it is
  written with is the record \<open>'a stream_type\<close>: \<open>demote\<close> is the conversion of a
  \<open>double\<close> stored into a \<open>STREAM_TYPE\<close> object, \<open>promote\<close> the conversion of a
  \<open>STREAM_TYPE\<close> operand of an operation whose other operand is a \<open>double\<close>
  (\<open>STREAM_TYPE\<close> is taken not to be \<open>long double\<close>), \<open>of_count\<close> the
  conversion of an integer. For the default \<open>STREAM_TYPE\<close>, which is \<open>double\<close>,
  the first two change nothing.
\<close>

record 'a stream_type =
  demote :: "double \<Rightarrow> 'a"
  promote :: "'a \<Rightarrow> double"
  of_count :: "nat \<Rightarrow> 'a"

definition double_type :: "double stream_type" where
  "double_type = \<lparr>demote = (\<lambda>d. d), promote = (\<lambda>d. d), of_count = double_of_nat\<rparr>"


record 'a buffers =
  arr_a :: "'a list"
  arr_b :: "'a list"
  arr_c :: "'a list"
  arr_d :: "'a list"
  arr_i :: "int list"
  arr_e :: "'a list"
  var_x :: 'a

section \<open>Loops\<close>

text \<open>\<^verbatim>\<open>for (j = lo; j < n; j++) body\<close>, run by one thread.\<close>

function for_loop :: "nat \<Rightarrow> nat \<Rightarrow> (nat \<Rightarrow> 's \<Rightarrow> 's) \<Rightarrow> 's \<Rightarrow> 's" where
  "for_loop j n body s = (if j < n then for_loop (Suc j) n body (body j s) else s)"
  by pat_completeness auto
termination
  by (relation "measure (\<lambda>(j, n, body, s). n - j)") auto

text \<open>
  The same loop with a body that can fail: \<open>None\<close> is an access outside an array
  (or a division by zero), where C leaves the behaviour undefined.
\<close>

function for_loop_opt :: "nat \<Rightarrow> nat \<Rightarrow> (nat \<Rightarrow> 's \<Rightarrow> 's option) \<Rightarrow> 's \<Rightarrow> 's option" where
  "for_loop_opt j n body s =
     (if j < n then (case body j s of None \<Rightarrow> None
                                    | Some s' \<Rightarrow> for_loop_opt (Suc j) n body s')
      else Some s)"
  by pat_completeness auto
termination
  by (relation "measure (\<lambda>(j, n, body, s). n - j)") auto

declare for_loop.simps [simp del] for_loop_opt.simps [simp del]

section \<open>The kernels\<close>

text \<open>
  \<^verbatim>\<open>for (j=0; j<STREAM_ARRAY_SIZE; j++) c[j] = a[j];\<close> and its three siblings.
  The arrays have \<open>STREAM_ARRAY_SIZE + OFFSET\<close> elements, so \<open>j\<close> is always inside.
\<close>

definition STREAM_Copy :: "config \<Rightarrow> 'a buffers \<Rightarrow> 'a buffers" where
  "STREAM_Copy cf s =
     for_loop 0 (STREAM_ARRAY_SIZE cf)
       (\<lambda>j s. s\<lparr>arr_c := (arr_c s)[j := arr_a s ! j]\<rparr>) s"

definition STREAM_Scale :: "config \<Rightarrow> 'a::times \<Rightarrow> 'a buffers \<Rightarrow> 'a buffers" where
  "STREAM_Scale cf scalar s =
     for_loop 0 (STREAM_ARRAY_SIZE cf)
       (\<lambda>j s. s\<lparr>arr_b := (arr_b s)[j := scalar * arr_c s ! j]\<rparr>) s"

definition STREAM_Add :: "config \<Rightarrow> 'a::plus buffers \<Rightarrow> 'a buffers" where
  "STREAM_Add cf s =
     for_loop 0 (STREAM_ARRAY_SIZE cf)
       (\<lambda>j s. s\<lparr>arr_c := (arr_c s)[j := arr_a s ! j + arr_b s ! j]\<rparr>) s"

definition STREAM_Triad :: "config \<Rightarrow> 'a::{plus,times} \<Rightarrow> 'a buffers \<Rightarrow> 'a buffers" where
  "STREAM_Triad cf scalar s =
     for_loop 0 (STREAM_ARRAY_SIZE cf)
       (\<lambda>j s. s\<lparr>arr_a := (arr_a s)[j := arr_b s ! j + scalar * arr_c s ! j]\<rparr>) s"

text \<open>
  The indexed kernels read \<open>i[j]\<close> and use it as a subscript:
  \<^verbatim>\<open>d[j] = a[i[j]]\<close>, \<^verbatim>\<open>e[i[j]] = d[j]\<close>, \<^verbatim>\<open>x += d[j] * b[i[j]]\<close>.
  \<open>subscript\<close> is the check C does not make: the entry as an offset into an array of
  the given length, when it is one.
\<close>

definition subscript :: "int \<Rightarrow> nat \<Rightarrow> nat option" where
  "subscript v len = (if 0 \<le> v \<and> nat v < len then Some (nat v) else None)"

definition gather_body :: "nat \<Rightarrow> 'a buffers \<Rightarrow> 'a buffers option" where
  "gather_body j s =
     (if j < length (arr_i s) \<and> j < length (arr_d s) then
        (case subscript (arr_i s ! j) (length (arr_a s)) of
           None \<Rightarrow> None
         | Some p \<Rightarrow> Some (s\<lparr>arr_d := (arr_d s)[j := arr_a s ! p]\<rparr>))
      else None)"

definition scatter_body :: "nat \<Rightarrow> 'a buffers \<Rightarrow> 'a buffers option" where
  "scatter_body j s =
     (if j < length (arr_i s) \<and> j < length (arr_d s) then
        (case subscript (arr_i s ! j) (length (arr_e s)) of
           None \<Rightarrow> None
         | Some p \<Rightarrow> Some (s\<lparr>arr_e := (arr_e s)[p := arr_d s ! j]\<rparr>))
      else None)"

definition indirect_dot_body :: "nat \<Rightarrow> 'a::{plus,times} buffers \<Rightarrow> 'a buffers option" where
  "indirect_dot_body j s =
     (if j < length (arr_i s) \<and> j < length (arr_d s) then
        (case subscript (arr_i s ! j) (length (arr_b s)) of
           None \<Rightarrow> None
         | Some p \<Rightarrow> Some (s\<lparr>var_x := var_x s + arr_d s ! j * arr_b s ! p\<rparr>))
      else None)"

definition STREAM_Gather :: "config \<Rightarrow> 'a buffers \<Rightarrow> 'a buffers option" where
  "STREAM_Gather cf s = for_loop_opt 0 (STREAM_INDEX_ARRAY_SIZE cf) gather_body s"

definition STREAM_Scatter :: "config \<Rightarrow> 'a buffers \<Rightarrow> 'a buffers option" where
  "STREAM_Scatter cf s = for_loop_opt 0 (STREAM_INDEX_ARRAY_SIZE cf) scatter_body s"

text \<open>\<^verbatim>\<open>x = 0.0;\<close>, the zero of the element type, and then the loop.\<close>

definition STREAM_Indirect_Dot :: "config \<Rightarrow> 'a::{zero,plus,times} buffers \<Rightarrow> 'a buffers option" where
  "STREAM_Indirect_Dot cf s =
     for_loop_opt 0 (STREAM_INDEX_ARRAY_SIZE cf) indirect_dot_body (s\<lparr>var_x := 0\<rparr>)"

section \<open>Setup in \<open>main\<close>\<close>

text \<open>
  Static storage starts as zeros. \<open>d\<close> and \<open>i\<close> are declared when one of the
  indexed kernels is enabled, \<open>e\<close> when Scatter is. The constants \<open>0.0\<close>,
  \<open>1.0\<close>, \<open>2.0\<close> and \<open>3.0\<close> of the program are binary64 numbers.
\<close>

definition static_buffers :: "config \<Rightarrow> 'a::zero buffers" where
  "static_buffers cf =
     \<lparr>arr_a = replicate (STREAM_ARRAY_SIZE cf + OFFSET cf) 0,
      arr_b = replicate (STREAM_ARRAY_SIZE cf + OFFSET cf) 0,
      arr_c = replicate (STREAM_ARRAY_SIZE cf + OFFSET cf) 0,
      arr_d = (if indexed_kernels cf
               then replicate (STREAM_INDEX_ARRAY_SIZE cf + OFFSET cf) 0 else []),
      arr_i = (if indexed_kernels cf
               then replicate (STREAM_INDEX_ARRAY_SIZE cf + OFFSET cf) 0 else []),
      arr_e = (if ENABLE_SCATTER cf
               then replicate (STREAM_ARRAY_SIZE cf + OFFSET cf) 0 else []),
      var_x = 0\<rparr>"

text \<open>\<^verbatim>\<open>a[j] = 1.0; b[j] = 2.0; c[j] = 0.0;\<close> for \<open>j < STREAM_ARRAY_SIZE\<close>.\<close>

definition init_abc :: "'a stream_type \<Rightarrow> config \<Rightarrow> 'a buffers \<Rightarrow> 'a buffers" where
  "init_abc T cf s =
     for_loop 0 (STREAM_ARRAY_SIZE cf)
       (\<lambda>j s. s\<lparr>arr_a := (arr_a s)[j := demote T (Fin 1)],
                 arr_b := (arr_b s)[j := demote T (Fin 2)],
                 arr_c := (arr_c s)[j := demote T (Fin 0)]\<rparr>) s"

text \<open>\<^verbatim>\<open>d[j] = 1.0;\<close> for \<open>j < STREAM_INDEX_ARRAY_SIZE\<close>.\<close>

definition init_d :: "'a stream_type \<Rightarrow> config \<Rightarrow> 'a buffers \<Rightarrow> 'a buffers" where
  "init_d T cf s =
     for_loop 0 (STREAM_INDEX_ARRAY_SIZE cf)
       (\<lambda>j s. s\<lparr>arr_d := (arr_d s)[j := demote T (Fin 1)]\<rparr>) s"

text \<open>
  The conversion of an integer to a signed integer type of \<open>bits\<close> bits keeps the
  value when it fits and otherwise wraps around (as the compilers define it).
\<close>

definition wrap_signed :: "nat \<Rightarrow> int \<Rightarrow> int" where
  "wrap_signed bits v = signed_take_bit (bits - 1) v"

text \<open>
  \<^verbatim>\<open>i[j] = j % STREAM_ARRAY_SIZE;\<close> for \<open>j < STREAM_INDEX_ARRAY_SIZE\<close>. The
  remainder is taken in \<open>ssize_t\<close>, where both operands are non-negative and C's
  \<open>%\<close> is \<open>mod\<close> (a zero divisor is undefined), and is then converted to
  \<open>INDEX_TYPE\<close>.
\<close>

definition init_i :: "config \<Rightarrow> 'a buffers \<Rightarrow> 'a buffers option" where
  "init_i cf s =
     for_loop_opt 0 (STREAM_INDEX_ARRAY_SIZE cf)
       (\<lambda>j s. if STREAM_ARRAY_SIZE cf = 0 then None
               else Some (s\<lparr>arr_i := (arr_i s)[j := wrap_signed (INDEX_TYPE_bits cf)
                                                      (int j mod int (STREAM_ARRAY_SIZE cf))]\<rparr>)) s"

text \<open>
  The Fisher-Yates loop
  \<^verbatim>\<open>for (j=0; j<STREAM_INDEX_ARRAY_SIZE-2; j++) {
     int k = j + rand() % (STREAM_INDEX_ARRAY_SIZE - j);
     INDEX_TYPE tmp = i[j]; i[j] = i[k]; i[k] = tmp; }\<close>
  \<open>rand\<close> is called once in each iteration; \<open>rnd j\<close> is the value (at least 0) that
  the call of iteration \<open>j\<close> returns. The sum is computed in \<open>ssize_t\<close> and
  converted to the \<open>int\<close> \<open>k\<close>, of 32 bits; a \<open>k\<close> outside the array is an
  undefined access.
\<close>

definition shuffle_body :: "config \<Rightarrow> (nat \<Rightarrow> nat) \<Rightarrow> nat \<Rightarrow> 'a buffers \<Rightarrow> 'a buffers option" where
  "shuffle_body cf rnd j s =
     (let k = wrap_signed 32 (int j + int (rnd j) mod (int (STREAM_INDEX_ARRAY_SIZE cf) - int j))
      in if j < length (arr_i s) then
           (case subscript k (length (arr_i s)) of
              None \<Rightarrow> None
            | Some k \<Rightarrow>
                (let tmp = arr_i s ! j;
                     s = s\<lparr>arr_i := (arr_i s)[j := arr_i s ! k]\<rparr>
                 in Some (s\<lparr>arr_i := (arr_i s)[k := tmp]\<rparr>)))
         else None)"

definition shuffle :: "config \<Rightarrow> (nat \<Rightarrow> nat) \<Rightarrow> 'a buffers \<Rightarrow> 'a buffers option" where
  "shuffle cf rnd s =
     for_loop_opt 0 (STREAM_INDEX_ARRAY_SIZE cf - 2) (shuffle_body cf rnd) s"

text \<open>\<^verbatim>\<open>e[j] = 0.0;\<close> for \<open>j < STREAM_ARRAY_SIZE\<close>.\<close>

definition init_e :: "'a stream_type \<Rightarrow> config \<Rightarrow> 'a buffers \<Rightarrow> 'a buffers" where
  "init_e T cf s =
     for_loop 0 (STREAM_ARRAY_SIZE cf)
       (\<lambda>j s. s\<lparr>arr_e := (arr_e s)[j := demote T (Fin 0)]\<rparr>) s"

text \<open>The index array as \<open>main\<close> leaves it before the first trial.\<close>

definition setup_index :: "config \<Rightarrow> (nat \<Rightarrow> nat) \<Rightarrow> 'a buffers \<Rightarrow> 'a buffers option" where
  "setup_index cf rnd s =
     (case init_i cf s of
        None \<Rightarrow> None
      | Some s \<Rightarrow> (if PERMUTE_INDEX_ARRAY cf then shuffle cf rnd s else Some s))"

definition main_setup :: "'a::zero stream_type \<Rightarrow> config \<Rightarrow> (nat \<Rightarrow> nat) \<Rightarrow> 'a buffers option" where
  "main_setup T cf rnd =
     (let s = init_abc T cf (static_buffers cf) in
      case (if indexed_kernels cf then setup_index cf rnd (init_d T cf s) else Some s) of
        None \<Rightarrow> None
      | Some s \<Rightarrow> Some (if ENABLE_SCATTER cf then init_e T cf s else s))"

text \<open>
  The timed loop before the trials: \<^verbatim>\<open>a[j] = 2.0E0 * a[j];\<close>, a product of
  \<open>double\<close>s stored into \<open>a[j]\<close>.
\<close>

definition warm_up :: "'a stream_type \<Rightarrow> config \<Rightarrow> 'a buffers \<Rightarrow> 'a buffers" where
  "warm_up T cf s =
     for_loop 0 (STREAM_ARRAY_SIZE cf)
       (\<lambda>j s. s\<lparr>arr_a := (arr_a s)[j := demote T (Fin 2 * promote T (arr_a s ! j))]\<rparr>) s"

section \<open>The trial loop of \<open>main\<close>\<close>

text \<open>
  One pass of the body of \<^verbatim>\<open>for (k=0; k<NTIMES; k++)\<close>. The statements around the
  kernels, \<^verbatim>\<open>times[l][k] = mysecond(); ... times[l][k] = mysecond() - times[l][k];\<close>,
  write the local table \<open>times\<close> only; the table is the input of the summary below.
\<close>

definition trial :: "config \<Rightarrow> 'a::{zero,plus,times} \<Rightarrow> 'a buffers \<Rightarrow> 'a buffers option" where
  "trial cf scalar s =
     (let s = STREAM_Copy cf s;
          s = STREAM_Scale cf scalar s;
          s = STREAM_Add cf s;
          s = STREAM_Triad cf scalar s
      in case (if ENABLE_GATHER cf then STREAM_Gather cf s else Some s) of
           None \<Rightarrow> None
         | Some s \<Rightarrow>
             (case (if ENABLE_SCATTER cf then STREAM_Scatter cf s else Some s) of
                None \<Rightarrow> None
              | Some s \<Rightarrow>
                  (if ENABLE_INDIRECT_DOT_PRODUCT cf then STREAM_Indirect_Dot cf s
                   else Some s)))"

text \<open>The first \<open>n\<close> trials with a given \<open>scalar\<close>.\<close>

definition trials :: "config \<Rightarrow> 'a::{zero,plus,times} \<Rightarrow> nat \<Rightarrow> 'a buffers \<Rightarrow> 'a buffers option" where
  "trials cf scalar n s = for_loop_opt 0 n (\<lambda>k. trial cf scalar) s"

text \<open>\<^verbatim>\<open>scalar = 3.0; for (k=0; k<NTIMES; k++) { ... }\<close>\<close>

definition main_loop :: "'a::{zero,plus,times} stream_type \<Rightarrow> config \<Rightarrow> 'a buffers \<Rightarrow> 'a buffers option" where
  "main_loop T cf s = (let scalar = demote T (Fin 3) in trials cf scalar (NTIMES cf) s)"

text \<open>
  The buffers when \<open>main\<close> calls \<open>checkSTREAMresults\<close>: the setup, the warm-up
  and the trials. What \<open>main\<close> does in between (it prints, calls \<open>checktick\<close> and
  reads the clock) does not touch them.
\<close>

definition main_buffers :: "'a::{zero,plus,times} stream_type \<Rightarrow> config \<Rightarrow> (nat \<Rightarrow> nat) \<Rightarrow> 'a buffers option" where
  "main_buffers T cf rnd =
     (case main_setup T cf rnd of
        None \<Rightarrow> None
      | Some s \<Rightarrow> main_loop T cf (warm_up T cf s))"

section \<open>The summary of the timings\<close>

text \<open>The macros \<^verbatim>\<open>MIN(x,y) ((x)<(y)?(x):(y))\<close> and \<^verbatim>\<open>MAX(x,y) ((x)>(y)?(x):(y))\<close>.\<close>

definition MIN_macro :: "'a::ord \<Rightarrow> 'a \<Rightarrow> 'a" where
  "MIN_macro x y = (if x < y then x else y)"

definition MAX_macro :: "'a::ord \<Rightarrow> 'a \<Rightarrow> 'a" where
  "MAX_macro x y = (if x > y then x else y)"

text \<open>\<open>FLT_MAX\<close> of \<^verbatim>\<open>float.h\<close>: \<open>(2 - 2\<^sup>-\<^sup>2\<^sup>3) \<times> 2\<^sup>1\<^sup>2\<^sup>7\<close>, as a \<open>double\<close>.\<close>

definition FLT_MAX :: double where
  "FLT_MAX = Fin 340282346638528859811704183484516925440"

text \<open>
  The three arrays of \<open>double\<close>s. \<open>tm j k\<close> is \<^verbatim>\<open>times[j][k]\<close>, the time of
  kernel \<open>j\<close> in trial \<open>k\<close>: the difference of two values of \<open>mysecond\<close>.
\<close>

record stats =
  avgtime :: "double list"
  mintime :: "double list"
  maxtime :: "double list"

text \<open>
  \<^verbatim>\<open>avgtime[j] = 0.0; mintime[j] = FLT_MAX; maxtime[j] = 0.0;\<close>: the static
  initialisers for four kernels, the loop at the start of \<open>main\<close> for more.
\<close>

definition initial_stats :: "config \<Rightarrow> stats" where
  "initial_stats cf =
     \<lparr>avgtime = replicate (NUM_KERNELS cf) (Fin 0),
      mintime = replicate (NUM_KERNELS cf) FLT_MAX,
      maxtime = replicate (NUM_KERNELS cf) (Fin 0)\<rparr>"

definition accumulate_body :: "(nat \<Rightarrow> nat \<Rightarrow> double) \<Rightarrow> nat \<Rightarrow> nat \<Rightarrow> stats \<Rightarrow> stats" where
  "accumulate_body tm k j st =
     st\<lparr>avgtime := (avgtime st)[j := avgtime st ! j + tm j k],
        mintime := (mintime st)[j := MIN_macro (mintime st ! j) (tm j k)],
        maxtime := (maxtime st)[j := MAX_macro (maxtime st ! j) (tm j k)]\<rparr>"

text \<open>\<^verbatim>\<open>for (k=1; k<NTIMES; k++) for (j=0; j<NUM_KERNELS; j++) { ... }\<close>\<close>

definition accumulate :: "config \<Rightarrow> (nat \<Rightarrow> nat \<Rightarrow> double) \<Rightarrow> stats \<Rightarrow> stats" where
  "accumulate cf tm st =
     for_loop 1 (NTIMES cf)
       (\<lambda>k st. for_loop 0 (NUM_KERNELS cf) (accumulate_body tm k) st) st"

text \<open>\<^verbatim>\<open>avgtime[j] = avgtime[j]/(double)(NTIMES-1);\<close> in the loop that prints.\<close>

definition average :: "config \<Rightarrow> stats \<Rightarrow> stats" where
  "average cf st =
     for_loop 0 (NUM_KERNELS cf)
       (\<lambda>j st. st\<lparr>avgtime := (avgtime st)[j := avgtime st ! j / double_of_nat (NTIMES cf - 1)]\<rparr>) st"

definition summary :: "config \<Rightarrow> (nat \<Rightarrow> nat \<Rightarrow> double) \<Rightarrow> stats" where
  "summary cf tm = average cf (accumulate cf tm (initial_stats cf))"

section \<open>\<open>checktick\<close>\<close>

text \<open>
  \<open>mysecond\<close> reads the clock and returns a \<open>double\<close>. \<open>clk n\<close> is the value of
  the reading number \<open>n\<close>; the state is the number of readings made so far.
  \<open>microsecond\<close> is the constant \<^verbatim>\<open>1.0E-6\<close>: the binary64 number nearest to it.

  \<^verbatim>\<open>while( ((t2=mysecond()) - t1) < 1.0E-6 ) ;\<close> returns the first reading whose
  difference from \<open>t1\<close>, as the subtraction of \<open>double\<close>s gives it, is not below
  that constant, and \<open>None\<close> when there is none: the loop does not end.
\<close>

definition microsecond :: double where
  "microsecond = to_double (1 / 10 ^ 6)"

partial_function (option) spin_wait :: "(nat \<Rightarrow> double) \<Rightarrow> double \<Rightarrow> nat \<Rightarrow> (double \<times> nat) option" where
  "spin_wait clk t1 n =
     (let t2 = clk n
      in if t2 - t1 < microsecond then spin_wait clk t1 (Suc n) else Some (t2, Suc n))"

declare spin_wait.simps [code]

text \<open>\<^verbatim>\<open># define M 20\<close>\<close>

definition checktick_M :: nat where
  "checktick_M = 20"

text \<open>
  \<^verbatim>\<open>for (i = 0; i < M; i++) { t1 = mysecond(); while (...) ; timesfound[i] = t1 = t2; }\<close>
  on the pair of \<open>timesfound\<close> and the number of readings. The array is a local
  without an initialiser; every element is written before it is read, and it starts as
  zeros here.
\<close>

definition collect_body :: "(nat \<Rightarrow> double) \<Rightarrow> nat \<Rightarrow> double list \<times> nat \<Rightarrow> (double list \<times> nat) option" where
  "collect_body clk i st =
     (case st of (timesfound, n) \<Rightarrow>
        (let t1 = clk n
         in case spin_wait clk t1 (Suc n) of
              None \<Rightarrow> None
            | Some (t2, n') \<Rightarrow> Some (timesfound[i := t2], n')))"

definition collect :: "(nat \<Rightarrow> double) \<Rightarrow> (double list \<times> nat) option" where
  "collect clk = for_loop_opt 0 checktick_M (collect_body clk) (replicate checktick_M (Fin 0), 0)"

text \<open>
  \<^verbatim>\<open>minDelta = 1000000;
  for (i = 1; i < M; i++) {
    Delta = (int)( 1.0E6 * (timesfound[i]-timesfound[i-1]));
    minDelta = MIN(minDelta, MAX(Delta,0)); }\<close>
  The difference and the product are those of \<open>double\<close>s; the loop is \<open>None\<close> when
  a conversion to \<open>int\<close> is undefined.
\<close>

definition min_delta :: "double list \<Rightarrow> int option" where
  "min_delta timesfound =
     for_loop_opt 1 checktick_M
       (\<lambda>i minDelta.
          case int_cast (Fin 1000000 * (timesfound ! i - timesfound ! (i - 1))) of
            None \<Rightarrow> None
          | Some Delta \<Rightarrow> Some (MIN_macro minDelta (MAX_macro Delta 0))) 1000000"

text \<open>
  The outcome of a call: \<open>None\<close> when the call does not return, \<open>Some (Inl e)\<close> when
  its behaviour is undefined, \<open>Some (Inr r)\<close> when it returns \<open>r\<close>.
\<close>

datatype error = Conversion_undefined

definition checktick :: "(nat \<Rightarrow> double) \<Rightarrow> (error + int) option" where
  "checktick clk =
     (case collect clk of
        None \<Rightarrow> None
      | Some (timesfound, n) \<Rightarrow>
          (case min_delta timesfound of
             None \<Rightarrow> Some (Inl Conversion_undefined)
           | Some minDelta \<Rightarrow> Some (Inr minDelta)))"

section \<open>\<open>checkSTREAMresults\<close>\<close>

text \<open>
  The expected values. \<open>dj\<close> and \<open>ej\<close> are declared when Gather and Scatter
  are enabled, and have no value before the loop gives them one.
\<close>

record 'a expected =
  aj :: 'a
  bj :: 'a
  cj :: 'a
  dj :: "'a option"
  ej :: "'a option"

text \<open>
  The body of \<^verbatim>\<open>for (k=0; k<NTIMES; k++)\<close> in \<open>checkSTREAMresults\<close>:
  \<^verbatim>\<open>cj = aj; bj = scalar*cj; cj = aj+bj; aj = bj+scalar*cj;\<close>, then
  \<^verbatim>\<open>dj = aj;\<close> under \<open>ENABLE_GATHER\<close>, and under \<open>ENABLE_SCATTER\<close>
  \<^verbatim>\<open>ej = aj;\<close> with \<open>ENABLE_GATHER\<close> and \<^verbatim>\<open>ej = 0.0;\<close> without.
\<close>

definition expected_step :: "'a::{plus,times} stream_type \<Rightarrow> config \<Rightarrow> 'a \<Rightarrow> 'a expected \<Rightarrow> 'a expected" where
  "expected_step T cf scalar r =
     (let r = r\<lparr>cj := aj r\<rparr>;
          r = r\<lparr>bj := scalar * cj r\<rparr>;
          r = r\<lparr>cj := aj r + bj r\<rparr>;
          r = r\<lparr>aj := bj r + scalar * cj r\<rparr>;
          r = (if ENABLE_GATHER cf then r\<lparr>dj := Some (aj r)\<rparr> else r)
      in if ENABLE_SCATTER cf
         then (if ENABLE_GATHER cf then r\<lparr>ej := Some (aj r)\<rparr>
               else r\<lparr>ej := Some (demote T (Fin 0))\<rparr>)
         else r)"

text \<open>
  \<^verbatim>\<open>aj = 1.0; bj = 2.0; cj = 0.0; aj = 2.0E0 * aj; scalar = 3.0;\<close> and the loop.
\<close>

definition expected_values :: "'a::{plus,times} stream_type \<Rightarrow> config \<Rightarrow> 'a expected" where
  "expected_values T cf =
     (let r = \<lparr>aj = demote T (Fin 1), bj = demote T (Fin 2), cj = demote T (Fin 0),
                dj = None, ej = None\<rparr>;
          r = r\<lparr>aj := demote T (Fin 2 * promote T (aj r))\<rparr>;
          scalar = demote T (Fin 3)
      in for_loop 0 (NTIMES cf) (\<lambda>k. expected_step T cf scalar) r)"

text \<open>
  \<^verbatim>\<open>#define abs(a) ((a) >= 0 ? (a) : -(a))\<close>, on a \<open>STREAM_TYPE\<close> operand, to
  which the \<open>0\<close> is converted.
\<close>

definition abs_macro :: "'a::{ord,uminus} stream_type \<Rightarrow> 'a \<Rightarrow> 'a" where
  "abs_macro T x = (if x \<ge> of_count T 0 then x else - x)"

text \<open>
  \<^verbatim>\<open>aSumErr += abs(a[j] - aj); bSumErr += abs(b[j] - bj); cSumErr += abs(c[j] - cj);\<close>
  for \<open>j < STREAM_ARRAY_SIZE\<close>, the three sums starting at \<open>0.0\<close>.
\<close>

definition abc_sum_err ::
  "'a::{plus,minus,uminus,ord} stream_type \<Rightarrow> config \<Rightarrow> 'a buffers \<Rightarrow> 'a expected \<Rightarrow> 'a \<times> 'a \<times> 'a" where
  "abc_sum_err T cf s ex =
     for_loop 0 (STREAM_ARRAY_SIZE cf)
       (\<lambda>j (aSumErr, bSumErr, cSumErr).
          (aSumErr + abs_macro T (arr_a s ! j - aj ex),
           bSumErr + abs_macro T (arr_b s ! j - bj ex),
           cSumErr + abs_macro T (arr_c s ! j - cj ex)))
       (demote T (Fin 0), demote T (Fin 0), demote T (Fin 0))"

text \<open>\<^verbatim>\<open>dSumErr += abs(d[j] - dj);\<close> for \<open>j < STREAM_INDEX_ARRAY_SIZE\<close>.\<close>

definition d_sum_err ::
  "'a::{plus,minus,uminus,ord} stream_type \<Rightarrow> config \<Rightarrow> 'a buffers \<Rightarrow> 'a \<Rightarrow> 'a" where
  "d_sum_err T cf s v =
     for_loop 0 (STREAM_INDEX_ARRAY_SIZE cf)
       (\<lambda>j dSumErr. dSumErr + abs_macro T (arr_d s ! j - v)) (demote T (Fin 0))"

text \<open>\<^verbatim>\<open>eSumErr += abs(e[i[j]] - ej);\<close> for \<open>j < STREAM_INDEX_ARRAY_SIZE\<close>.\<close>

definition e_sum_err ::
  "'a::{plus,minus,uminus,ord} stream_type \<Rightarrow> config \<Rightarrow> 'a buffers \<Rightarrow> 'a \<Rightarrow> 'a option" where
  "e_sum_err T cf s v =
     for_loop_opt 0 (STREAM_INDEX_ARRAY_SIZE cf)
       (\<lambda>j eSumErr.
          if j < length (arr_i s) then
            (case subscript (arr_i s ! j) (length (arr_e s)) of
               None \<Rightarrow> None
             | Some p \<Rightarrow> Some (eSumErr + abs_macro T (arr_e s ! p - v)))
          else None) (demote T (Fin 0))"

text \<open>\<^verbatim>\<open>xj += d[j] * b[i[j]];\<close> for \<open>j < STREAM_INDEX_ARRAY_SIZE\<close>.\<close>

definition x_expected :: "'a::{plus,times} stream_type \<Rightarrow> config \<Rightarrow> 'a buffers \<Rightarrow> 'a option" where
  "x_expected T cf s =
     for_loop_opt 0 (STREAM_INDEX_ARRAY_SIZE cf)
       (\<lambda>j xj.
          if j < length (arr_i s) then
            (case subscript (arr_i s ! j) (length (arr_b s)) of
               None \<Rightarrow> None
             | Some p \<Rightarrow> Some (xj + arr_d s ! j * arr_b s ! p))
          else None) (demote T (Fin 0))"

text \<open>
  \<^verbatim>\<open>if (sizeof(STREAM_TYPE) == 4) epsilon = 1.e-6;
  else if (sizeof(STREAM_TYPE) == 8) epsilon = 1.e-13;
  else epsilon = 1.e-6;\<close>
  \<open>epsilon\<close> is a \<open>double\<close>: the binary64 number nearest to the constant.
\<close>

definition epsilon :: "config \<Rightarrow> double" where
  "epsilon cf =
     (if sizeof_STREAM_TYPE cf = 4 then to_double (1 / 10 ^ 6)
      else if sizeof_STREAM_TYPE cf = 8 then to_double (1 / 10 ^ 13)
      else to_double (1 / 10 ^ 6))"

text \<open>
  The test \<^verbatim>\<open>abs(aAvgErr/aj) > epsilon\<close>: a quotient and its absolute value in
  \<open>STREAM_TYPE\<close>, compared as a \<open>double\<close>. With a divisor \<open>0.0\<close> the quotient of
  \<open>double\<close>s is an infinity when the dividend is not zero, which is above every
  \<open>epsilon\<close>, and a NaN when it is zero, which compares false.
\<close>

definition exceeds ::
  "'a::{inverse,uminus,ord} stream_type \<Rightarrow> 'a \<Rightarrow> 'a \<Rightarrow> double \<Rightarrow> bool" where
  "exceeds T avgErr expd eps \<longleftrightarrow> promote T (abs_macro T (avgErr / expd)) > eps"

text \<open>
  What the function finds: the average errors and, for each of \<open>a, b, c, d, e, x\<close>,
  whether the failure is printed (and \<open>err\<close> incremented). The fields of a disabled
  kernel are \<open>None\<close> and \<open>False\<close>. The whole is \<open>None\<close> when the function reads
  outside an array or reads \<open>dj\<close> or \<open>ej\<close> without a value. The counts \<open>ierr\<close>
  that follow a failure are printed only and are left out.
\<close>

record 'a report =
  aAvgErr :: 'a
  bAvgErr :: 'a
  cAvgErr :: 'a
  dAvgErr :: "'a option"
  eAvgErr :: "'a option"
  xErr :: "'a option"
  failed_a :: bool
  failed_b :: bool
  failed_c :: bool
  failed_d :: bool
  failed_e :: bool
  failed_x :: bool

text \<open>\<^verbatim>\<open>dAvgErr = dSumErr / (STREAM_TYPE) STREAM_INDEX_ARRAY_SIZE;\<close>\<close>

definition d_avg_err ::
  "'a::{plus,minus,uminus,inverse,ord} stream_type \<Rightarrow> config \<Rightarrow> 'a buffers \<Rightarrow> 'a expected \<Rightarrow> 'a option option" where
  "d_avg_err T cf s ex =
     (if ENABLE_GATHER cf then
        (case dj ex of
           None \<Rightarrow> None
         | Some v \<Rightarrow> Some (Some (d_sum_err T cf s v / of_count T (STREAM_INDEX_ARRAY_SIZE cf))))
      else Some None)"

text \<open>\<^verbatim>\<open>eAvgErr = eSumErr / (STREAM_TYPE) STREAM_ARRAY_SIZE;\<close>\<close>

definition e_avg_err ::
  "'a::{plus,minus,uminus,inverse,ord} stream_type \<Rightarrow> config \<Rightarrow> 'a buffers \<Rightarrow> 'a expected \<Rightarrow> 'a option option" where
  "e_avg_err T cf s ex =
     (if ENABLE_SCATTER cf then
        (case ej ex of
           None \<Rightarrow> None
         | Some v \<Rightarrow>
             (case e_sum_err T cf s v of
                None \<Rightarrow> None
              | Some eSumErr \<Rightarrow> Some (Some (eSumErr / of_count T (STREAM_ARRAY_SIZE cf)))))
      else Some None)"

text \<open>\<^verbatim>\<open>xErr = x - xj;\<close>\<close>

definition x_err ::
  "'a::{plus,minus,times} stream_type \<Rightarrow> config \<Rightarrow> 'a buffers \<Rightarrow> ('a \<times> 'a) option option" where
  "x_err T cf s =
     (if ENABLE_INDIRECT_DOT_PRODUCT cf then
        (case x_expected T cf s of
           None \<Rightarrow> None
         | Some xj \<Rightarrow> Some (Some (var_x s - xj, xj)))
      else Some None)"

definition checkSTREAMresults ::
  "'a::{plus,minus,uminus,times,inverse,ord} stream_type \<Rightarrow> config \<Rightarrow> 'a buffers \<Rightarrow> 'a report option" where
  "checkSTREAMresults T cf s =
     (let ex = expected_values T cf in
      case abc_sum_err T cf s ex of (aSumErr, bSumErr, cSumErr) \<Rightarrow>
      case d_avg_err T cf s ex of None \<Rightarrow> None | Some dAvg \<Rightarrow>
      case e_avg_err T cf s ex of None \<Rightarrow> None | Some eAvg \<Rightarrow>
      case x_err T cf s of None \<Rightarrow> None | Some xE \<Rightarrow>
        (let aAvg = aSumErr / of_count T (STREAM_ARRAY_SIZE cf);
             bAvg = bSumErr / of_count T (STREAM_ARRAY_SIZE cf);
             cAvg = cSumErr / of_count T (STREAM_ARRAY_SIZE cf)
         in Some \<lparr>aAvgErr = aAvg,
              bAvgErr = bAvg,
              cAvgErr = cAvg,
              dAvgErr = dAvg,
              eAvgErr = eAvg,
              xErr = map_option fst xE,
              failed_a = exceeds T aAvg (aj ex) (epsilon cf),
              failed_b = exceeds T bAvg (bj ex) (epsilon cf),
              failed_c = exceeds T cAvg (cj ex) (epsilon cf),
              failed_d = (case (dAvg, dj ex) of
                            (Some avg, Some v) \<Rightarrow> exceeds T avg v (epsilon cf)
                          | _ \<Rightarrow> False),
              failed_e = (case (eAvg, ej ex) of
                            (Some avg, Some v) \<Rightarrow> exceeds T avg v (epsilon cf)
                          | _ \<Rightarrow> False),
              failed_x = (case xE of
                            Some (xe, xj) \<Rightarrow> exceeds T xe xj (epsilon cf)
                          | None \<Rightarrow> False)\<rparr>))"

text \<open>\<open>err\<close>, the number of failures printed.\<close>

definition err :: "'a report \<Rightarrow> nat" where
  "err r = length (filter id [failed_a r, failed_b r, failed_c r, failed_d r, failed_e r, failed_x r])"
section \<open>Predicates and inputs used in the statements\<close>

text \<open>One step of \<open>for_loop_opt\<close> on an optional state.\<close>

definition obind :: "(nat \<Rightarrow> 's \<Rightarrow> 's option) \<Rightarrow> nat \<Rightarrow> 's option \<Rightarrow> 's option" where
  "obind body k so = (case so of None \<Rightarrow> None | Some s \<Rightarrow> body k s)"

text \<open>The first \<open>n\<close> elements of an array all hold \<open>v\<close>.\<close>

definition uniform :: "nat \<Rightarrow> 'a list \<Rightarrow> 'a \<Rightarrow> bool" where
  "uniform n xs v \<longleftrightarrow> (\<forall>j<n. xs ! j = v)"

text \<open>The arrays have the lengths of their declarations.\<close>

definition well_sized :: "config \<Rightarrow> 'a buffers \<Rightarrow> bool" where
  "well_sized cf s \<longleftrightarrow>
     length (arr_a s) = STREAM_ARRAY_SIZE cf + OFFSET cf \<and>
     length (arr_b s) = STREAM_ARRAY_SIZE cf + OFFSET cf \<and>
     length (arr_c s) = STREAM_ARRAY_SIZE cf + OFFSET cf \<and>
     (indexed_kernels cf \<longrightarrow>
        length (arr_d s) = STREAM_INDEX_ARRAY_SIZE cf + OFFSET cf \<and>
        length (arr_i s) = STREAM_INDEX_ARRAY_SIZE cf + OFFSET cf) \<and>
     (ENABLE_SCATTER cf \<longrightarrow> length (arr_e s) = STREAM_ARRAY_SIZE cf + OFFSET cf)"

text \<open>Each of the first \<open>STREAM_INDEX_ARRAY_SIZE\<close> entries of \<open>i\<close> is in \<open>[0, STREAM_ARRAY_SIZE)\<close>.\<close>

definition index_in_range :: "config \<Rightarrow> 'a buffers \<Rightarrow> bool" where
  "index_in_range cf s \<longleftrightarrow>
     (\<forall>j < STREAM_INDEX_ARRAY_SIZE cf.
        0 \<le> arr_i s ! j \<and> arr_i s ! j < int (STREAM_ARRAY_SIZE cf))"

text \<open>
  The sizes fit the integer types: \<open>STREAM_ARRAY_SIZE\<close> is not zero, every remainder
  \<open>j % STREAM_ARRAY_SIZE\<close> is a value of \<open>INDEX_TYPE\<close>, and, where the index array
  is permuted, every offset into it is a value of \<open>int\<close>.
\<close>

definition index_fits :: "config \<Rightarrow> bool" where
  "index_fits cf \<longleftrightarrow>
     0 < STREAM_ARRAY_SIZE cf \<and>
     int (STREAM_ARRAY_SIZE cf) \<le> 2 ^ (INDEX_TYPE_bits cf - 1) \<and>
     (PERMUTE_INDEX_ARRAY cf \<longrightarrow> int (STREAM_INDEX_ARRAY_SIZE cf) \<le> 2 ^ 31)"

text \<open>Where \<open>d\<close> is declared, its first \<open>STREAM_INDEX_ARRAY_SIZE\<close> elements hold \<open>dv\<close>.\<close>

definition d_uniform :: "config \<Rightarrow> 'a buffers \<Rightarrow> 'a \<Rightarrow> bool" where
  "d_uniform cf s dv \<longleftrightarrow>
     (indexed_kernels cf \<longrightarrow> uniform (STREAM_INDEX_ARRAY_SIZE cf) (arr_d s) dv)"

text \<open>
  A small configuration with every optional kernel and the permutation enabled, a
  generator whose every value is 7, and buffers whose index array has a duplicate.
\<close>

definition cfg_small :: config where
  "cfg_small = \<lparr>STREAM_ARRAY_SIZE = 2, STREAM_INDEX_ARRAY_SIZE = 3, OFFSET = 1,
     NTIMES_given = Some 2, ENABLE_GATHER = True, ENABLE_SCATTER = True,
     ENABLE_INDIRECT_DOT_PRODUCT = True, PERMUTE_INDEX_ARRAY = True, sizeof_STREAM_TYPE = 8,
     INDEX_TYPE_bits = 32\<rparr>"

definition rnd_small :: "nat \<Rightarrow> nat" where
  "rnd_small j = 7"

definition bufs_small :: "real buffers" where
  "bufs_small = \<lparr>arr_a = [10, 20, 0], arr_b = [2, 2, 0], arr_c = [0, 0, 0],
     arr_d = [1, 1, 1, 0], arr_i = [1, 1, 0, 0], arr_e = [0, 0, 0], var_x = 0\<rparr>"

text \<open>The same buffers with elements of type \<open>double\<close>.\<close>

definition bufs_double :: "double buffers" where
  "bufs_double = \<lparr>arr_a = [Fin 10, Fin 20, Fin 0], arr_b = [Fin 2, Fin 2, Fin 0],
     arr_c = [Fin 0, Fin 0, Fin 0], arr_d = [Fin 1, Fin 1, Fin 1, Fin 0],
     arr_i = [1, 1, 0, 0], arr_e = [Fin 0, Fin 0, Fin 0], var_x = Fin 0\<rparr>"

text \<open>
  The recurrence in the words of the specification, \<open>c = a; b = 3*c; c = a+b; a = b+3*c\<close>,
  as one step on the triple \<open>(a, b, c)\<close>, in the arithmetic of the element type;
  \<open>three\<close> is the element that the constant \<open>3.0\<close> denotes there.
\<close>

definition spec_recurrence :: "'a::{plus,times} \<Rightarrow> 'a \<times> 'a \<times> 'a \<Rightarrow> 'a \<times> 'a \<times> 'a" where
  "spec_recurrence three abc =
     (case abc of (a, b, c) \<Rightarrow>
        (let c = a; b = three * c; c = a + b; a = b + three * c in (a, b, c)))"

text \<open>
  The seeds in the words of the specification: \<open>A = 1.0\<close> doubled, \<open>B = 2.0\<close>,
  \<open>C = 0.0\<close>, as elements. For \<open>double\<close> they are 2, 2 and 0.
\<close>

definition spec_seed :: "'a stream_type \<Rightarrow> 'a \<times> 'a \<times> 'a" where
  "spec_seed T = (demote T (Fin 2 * promote T (demote T (Fin 1))), demote T (Fin 2), demote T (Fin 0))"

text \<open>A configuration with Scatter and without Gather.\<close>

definition cfg_scatter_only :: config where
  "cfg_scatter_only = \<lparr>STREAM_ARRAY_SIZE = 2, STREAM_INDEX_ARRAY_SIZE = 2, OFFSET = 0,
     NTIMES_given = Some 2, ENABLE_GATHER = False, ENABLE_SCATTER = True,
     ENABLE_INDIRECT_DOT_PRODUCT = False, PERMUTE_INDEX_ARRAY = False, sizeof_STREAM_TYPE = 8,
     INDEX_TYPE_bits = 32\<rparr>"

text \<open>
  Two configurations with the four mandatory kernels, of two and of four trials, and three
  tables of times: one with a different time in every entry, one where every time is
  negative (a clock that was set back during each kernel), one with times that vary.
\<close>

definition cfg_two_trials :: config where
  "cfg_two_trials = \<lparr>STREAM_ARRAY_SIZE = 4, STREAM_INDEX_ARRAY_SIZE = 4, OFFSET = 0,
     NTIMES_given = Some 2, ENABLE_GATHER = False, ENABLE_SCATTER = False,
     ENABLE_INDIRECT_DOT_PRODUCT = False, PERMUTE_INDEX_ARRAY = False, sizeof_STREAM_TYPE = 8,
     INDEX_TYPE_bits = 32\<rparr>"


definition tm_distinct :: "nat \<Rightarrow> nat \<Rightarrow> double" where
  "tm_distinct j k = Fin (real (1 + j + 4 * k) / 8)"

definition tm_backwards :: "nat \<Rightarrow> nat \<Rightarrow> double" where
  "tm_backwards j k = Fin (- 1)"



text \<open>
  The real number that a finite \<open>double\<close> is, the finite \<open>double\<close>s, and the real
  numbers that are binary64 numbers.
\<close>

fun val :: "double \<Rightarrow> real" where
  "val (Fin r) = r"
| "val PInf = 0"
| "val NInf = 0"
| "val NaN = 0"

fun is_finite :: "double \<Rightarrow> bool" where
  "is_finite (Fin r) \<longleftrightarrow> True"
| "is_finite PInf \<longleftrightarrow> False"
| "is_finite NInf \<longleftrightarrow> False"
| "is_finite NaN \<longleftrightarrow> False"

definition is_binary64 :: "real \<Rightarrow> bool" where
  "is_binary64 r \<longleftrightarrow> to_double r = Fin r"

text \<open>
  A clock advances when after every reading there is a later one that ends the wait.
  \<open>clk_ticks\<close> is a clock that gains \<open>2\<^sup>-\<^sup>2\<^sup>0\<close> seconds, a little less than a
  microsecond, with each reading (its first \<open>2\<^sup>5\<^sup>3\<close> readings are binary64 numbers).
\<close>

definition clock_advances :: "(nat \<Rightarrow> double) \<Rightarrow> bool" where
  "clock_advances clk \<longleftrightarrow> (\<forall>n. \<exists>m>n. \<not> clk m - clk n < microsecond)"

definition clk_ticks :: "nat \<Rightarrow> double" where
  "clk_ticks n = Fin (real n / 2 ^ 20)"

text \<open>The \<open>Delta\<close> of two consecutive timestamps, when its conversion is defined.\<close>

definition scaled_delta :: "double list \<Rightarrow> nat \<Rightarrow> int option" where
  "scaled_delta tf i = int_cast (Fin 1000000 * (tf ! i - tf ! (i - 1)))"

text \<open>
  The relative error in the words of the specification: the mean absolute difference
  between the observed values and the expected scalar, divided by the expected scalar.
  The observed values of \<open>e\<close> are the elements that the validation reads,
  \<open>e[i[j]]\<close> for \<open>j < STREAM_INDEX_ARRAY_SIZE\<close>.
\<close>

definition spec_rel_err :: "real list \<Rightarrow> real \<Rightarrow> real" where
  "spec_rel_err observed expd =
     (sum_list (map (\<lambda>v. \<bar>v - expd\<bar>) observed) / real (length observed)) / expd"

definition checked_elements_e :: "config \<Rightarrow> 'a buffers \<Rightarrow> 'a list" where
  "checked_elements_e cf s =
     map (\<lambda>j. arr_e s ! nat (arr_i s ! j)) [0..<STREAM_INDEX_ARRAY_SIZE cf]"

text \<open>
  A configuration with Gather and Scatter, two elements in each data array and one
  index, and the buffers that its two trials leave, but for \<open>e[0]\<close>, which is off
  by \<open>297 / 2\<^sup>4\<^sup>2\<close> (relative to 450, about 1.5 times \<open>1e-13\<close>); the sum is a
  binary64 number.
\<close>

definition cfg_one_index :: config where
  "cfg_one_index = \<lparr>STREAM_ARRAY_SIZE = 2, STREAM_INDEX_ARRAY_SIZE = 1, OFFSET = 0,
     NTIMES_given = Some 2, ENABLE_GATHER = True, ENABLE_SCATTER = True,
     ENABLE_INDIRECT_DOT_PRODUCT = False, PERMUTE_INDEX_ARRAY = False, sizeof_STREAM_TYPE = 8,
     INDEX_TYPE_bits = 32\<rparr>"

definition bufs_e_off :: "double buffers" where
  "bufs_e_off = \<lparr>arr_a = [Fin 450, Fin 450], arr_b = [Fin 90, Fin 90],
     arr_c = [Fin 120, Fin 120], arr_d = [Fin 450], arr_i = [0],
     arr_e = [Fin (450 + 297 / 2 ^ 42), Fin 0], var_x = Fin 0\<rparr>"

text \<open>
  A configuration whose \<open>INDEX_TYPE\<close> is \<open>signed char\<close>, of 8 bits, with 129
  elements in every array.
\<close>

definition cfg_char_index :: config where
  "cfg_char_index = \<lparr>STREAM_ARRAY_SIZE = 129, STREAM_INDEX_ARRAY_SIZE = 129, OFFSET = 0,
     NTIMES_given = Some 2, ENABLE_GATHER = True, ENABLE_SCATTER = False,
     ENABLE_INDIRECT_DOT_PRODUCT = False, PERMUTE_INDEX_ARRAY = False, sizeof_STREAM_TYPE = 8,
     INDEX_TYPE_bits = 8\<rparr>"

section \<open>Loops as folds\<close>

lemma for_loop_fold: "for_loop j n body s = fold body [j..<n] s"
proof (induction j n body s rule: for_loop.induct)
  case (1 j n body s)
  show ?case
  proof (cases "j < n")
    case True
    with 1 show ?thesis
      by (subst for_loop.simps) (simp add: upt_conv_Cons)
  next
    case False
    then show ?thesis by (subst for_loop.simps) simp
  qed
qed

lemma for_loop_empty [simp]: "n \<le> j \<Longrightarrow> for_loop j n body s = s"
  by (subst for_loop.simps) simp

lemma for_loop_Suc: "j \<le> n \<Longrightarrow> for_loop j (Suc n) body s = body n (for_loop j n body s)"
  by (simp add: for_loop_fold)

lemma for_loop_opt_empty [simp]: "n \<le> j \<Longrightarrow> for_loop_opt j n body s = Some s"
  by (subst for_loop_opt.simps) simp

lemma obind_simps [simp]: "obind body k None = None" "obind body k (Some s) = body k s"
  by (simp_all add: obind_def)

lemma fold_obind_None [simp]: "fold (obind body) ks None = None"
  by (induction ks) simp_all

lemma for_loop_opt_fold: "for_loop_opt j n body s = fold (obind body) [j..<n] (Some s)"
proof (induction j n body s rule: for_loop_opt.induct)
  case (1 j n body s)
  show ?case
  proof (cases "j < n")
    case True
    show ?thesis
    proof (cases "body j s")
      case None
      with True show ?thesis
        by (subst for_loop_opt.simps) (simp add: upt_conv_Cons)
    next
      case (Some s')
      with True 1 show ?thesis
        by (subst for_loop_opt.simps) (simp add: upt_conv_Cons)
    qed
  next
    case False
    then show ?thesis by (subst for_loop_opt.simps) simp
  qed
qed

lemma for_loop_opt_Suc:
  "j \<le> n \<Longrightarrow> for_loop_opt j (Suc n) body s =
     (case for_loop_opt j n body s of None \<Rightarrow> None | Some s' \<Rightarrow> body n s')"
  by (simp add: for_loop_opt_fold obind_def split: option.splits)

section \<open>What each loop computes\<close>

lemma Copy_loop:
  "for_loop 0 n (\<lambda>j s. s\<lparr>arr_c := (arr_c s)[j := arr_a s ! j]\<rparr>) s =
     s\<lparr>arr_c := map (\<lambda>j. if j < n then arr_a s ! j else arr_c s ! j) [0..<length (arr_c s)]\<rparr>"
proof (induction n)
  case 0
  show ?case by (simp add: map_nth)
next
  case (Suc n)
  have "(map (\<lambda>j. if j < n then arr_a s ! j else arr_c s ! j) [0..<length (arr_c s)])[n := arr_a s ! n]
      = map (\<lambda>j. if j < Suc n then arr_a s ! j else arr_c s ! j) [0..<length (arr_c s)]"
    by (rule nth_equalityI) (simp_all add: nth_list_update less_Suc_eq)
  then show ?case
    by (simp add: for_loop_Suc Suc)
qed


lemma Scale_loop:
  "for_loop 0 n (\<lambda>j s. s\<lparr>arr_b := (arr_b s)[j := scalar * arr_c s ! j]\<rparr>) s =
     s\<lparr>arr_b := map (\<lambda>j. if j < n then scalar * arr_c s ! j else arr_b s ! j) [0..<length (arr_b s)]\<rparr>"
proof (induction n)
  case 0
  show ?case by (simp add: map_nth)
next
  case (Suc n)
  have "(map (\<lambda>j. if j < n then scalar * arr_c s ! j else arr_b s ! j) [0..<length (arr_b s)])[n := scalar * arr_c s ! n]
      = map (\<lambda>j. if j < Suc n then scalar * arr_c s ! j else arr_b s ! j) [0..<length (arr_b s)]"
    by (rule nth_equalityI) (simp_all add: nth_list_update less_Suc_eq)
  then show ?case
    by (simp add: for_loop_Suc Suc)
qed

lemma Add_loop:
  "for_loop 0 n (\<lambda>j s. s\<lparr>arr_c := (arr_c s)[j := arr_a s ! j + arr_b s ! j]\<rparr>) s =
     s\<lparr>arr_c := map (\<lambda>j. if j < n then arr_a s ! j + arr_b s ! j else arr_c s ! j) [0..<length (arr_c s)]\<rparr>"
proof (induction n)
  case 0
  show ?case by (simp add: map_nth)
next
  case (Suc n)
  have "(map (\<lambda>j. if j < n then arr_a s ! j + arr_b s ! j else arr_c s ! j) [0..<length (arr_c s)])[n := arr_a s ! n + arr_b s ! n]
      = map (\<lambda>j. if j < Suc n then arr_a s ! j + arr_b s ! j else arr_c s ! j) [0..<length (arr_c s)]"
    by (rule nth_equalityI) (simp_all add: nth_list_update less_Suc_eq)
  then show ?case
    by (simp add: for_loop_Suc Suc)
qed

lemma Triad_loop:
  "for_loop 0 n (\<lambda>j s. s\<lparr>arr_a := (arr_a s)[j := arr_b s ! j + scalar * arr_c s ! j]\<rparr>) s =
     s\<lparr>arr_a := map (\<lambda>j. if j < n then arr_b s ! j + scalar * arr_c s ! j else arr_a s ! j) [0..<length (arr_a s)]\<rparr>"
proof (induction n)
  case 0
  show ?case by (simp add: map_nth)
next
  case (Suc n)
  have "(map (\<lambda>j. if j < n then arr_b s ! j + scalar * arr_c s ! j else arr_a s ! j) [0..<length (arr_a s)])[n := arr_b s ! n + scalar * arr_c s ! n]
      = map (\<lambda>j. if j < Suc n then arr_b s ! j + scalar * arr_c s ! j else arr_a s ! j) [0..<length (arr_a s)]"
    by (rule nth_equalityI) (simp_all add: nth_list_update less_Suc_eq)
  then show ?case
    by (simp add: for_loop_Suc Suc)
qed

lemma warm_up_loop:
  "for_loop 0 n (\<lambda>j s. s\<lparr>arr_a := (arr_a s)[j := f (arr_a s ! j)]\<rparr>) s =
     s\<lparr>arr_a := map (\<lambda>j. if j < n then f (arr_a s ! j) else arr_a s ! j) [0..<length (arr_a s)]\<rparr>"
proof (induction n)
  case 0
  show ?case by (simp add: map_nth)
next
  case (Suc n)
  let ?f = "\<lambda>n j. if j < n then f (arr_a s ! j) else arr_a s ! j"
  have "(map (?f n) [0..<length (arr_a s)])[n := f (map (?f n) [0..<length (arr_a s)] ! n)]
      = map (?f (Suc n)) [0..<length (arr_a s)]"
    by (rule nth_equalityI) (simp_all add: nth_list_update less_Suc_eq)
  then show ?case
    by (simp add: for_loop_Suc Suc)
qed

lemma STREAM_Copy_eq:
  "STREAM_Copy cf s =
     s\<lparr>arr_c := map (\<lambda>j. if j < STREAM_ARRAY_SIZE cf then arr_a s ! j else arr_c s ! j)
                    [0..<length (arr_c s)]\<rparr>"
  by (simp add: STREAM_Copy_def Copy_loop)

lemma STREAM_Scale_eq:
  "STREAM_Scale cf scalar s =
     s\<lparr>arr_b := map (\<lambda>j. if j < STREAM_ARRAY_SIZE cf then scalar * arr_c s ! j else arr_b s ! j)
                    [0..<length (arr_b s)]\<rparr>"
  by (simp add: STREAM_Scale_def Scale_loop)

lemma STREAM_Add_eq:
  "STREAM_Add cf s =
     s\<lparr>arr_c := map (\<lambda>j. if j < STREAM_ARRAY_SIZE cf then arr_a s ! j + arr_b s ! j else arr_c s ! j)
                    [0..<length (arr_c s)]\<rparr>"
  by (simp add: STREAM_Add_def Add_loop)

lemma STREAM_Triad_eq:
  "STREAM_Triad cf scalar s =
     s\<lparr>arr_a := map (\<lambda>j. if j < STREAM_ARRAY_SIZE cf then arr_b s ! j + scalar * arr_c s ! j
                         else arr_a s ! j) [0..<length (arr_a s)]\<rparr>"
  by (simp add: STREAM_Triad_def Triad_loop)

lemma warm_up_eq:
  "warm_up T cf s =
     s\<lparr>arr_a := map (\<lambda>j. if j < STREAM_ARRAY_SIZE cf then demote T (Fin 2 * promote T (arr_a s ! j))
                         else arr_a s ! j) [0..<length (arr_a s)]\<rparr>"
  unfolding warm_up_def by (rule warm_up_loop [where f = "\<lambda>v. demote T (Fin 2 * promote T v)"])


lemma init_abc_loop:
  "for_loop 0 n (\<lambda>j s. s\<lparr>arr_a := (arr_a s)[j := va], arr_b := (arr_b s)[j := vb],
                          arr_c := (arr_c s)[j := vc]\<rparr>) s =
     s\<lparr>arr_a := map (\<lambda>j. if j < n then va else arr_a s ! j) [0..<length (arr_a s)],
       arr_b := map (\<lambda>j. if j < n then vb else arr_b s ! j) [0..<length (arr_b s)],
       arr_c := map (\<lambda>j. if j < n then vc else arr_c s ! j) [0..<length (arr_c s)]\<rparr>"
proof (induction n)
  case 0
  show ?case by (simp add: map_nth)
next
  case (Suc n)
  have upd: "(map (\<lambda>j. if j < n then v else xs ! j) [0..<length xs])[n := v]
      = map (\<lambda>j. if j < Suc n then v else xs ! j) [0..<length xs]" for v :: 'a and xs
    by (rule nth_equalityI) (simp_all add: nth_list_update less_Suc_eq)
  show ?case
    by (simp add: for_loop_Suc Suc upd)
qed

lemma init_d_loop:
  "for_loop 0 n (\<lambda>j s. s\<lparr>arr_d := (arr_d s)[j := vd]\<rparr>) s =
     s\<lparr>arr_d := map (\<lambda>j. if j < n then vd else arr_d s ! j) [0..<length (arr_d s)]\<rparr>"
proof (induction n)
  case 0
  show ?case by (simp add: map_nth)
next
  case (Suc n)
  have upd: "(map (\<lambda>j. if j < n then v else xs ! j) [0..<length xs])[n := v]
      = map (\<lambda>j. if j < Suc n then v else xs ! j) [0..<length xs]" for v :: 'a and xs
    by (rule nth_equalityI) (simp_all add: nth_list_update less_Suc_eq)
  show ?case
    by (simp add: for_loop_Suc Suc upd)
qed

lemma init_e_loop:
  "for_loop 0 n (\<lambda>j s. s\<lparr>arr_e := (arr_e s)[j := ve]\<rparr>) s =
     s\<lparr>arr_e := map (\<lambda>j. if j < n then ve else arr_e s ! j) [0..<length (arr_e s)]\<rparr>"
proof (induction n)
  case 0
  show ?case by (simp add: map_nth)
next
  case (Suc n)
  have upd: "(map (\<lambda>j. if j < n then v else xs ! j) [0..<length xs])[n := v]
      = map (\<lambda>j. if j < Suc n then v else xs ! j) [0..<length xs]" for v :: 'a and xs
    by (rule nth_equalityI) (simp_all add: nth_list_update less_Suc_eq)
  show ?case
    by (simp add: for_loop_Suc Suc upd)
qed

lemma init_i_loop:
  assumes "0 < STREAM_ARRAY_SIZE cf"
  shows "for_loop_opt 0 n
       (\<lambda>j s. if STREAM_ARRAY_SIZE cf = 0 then None
               else Some (s\<lparr>arr_i := (arr_i s)[j := w (int j mod int (STREAM_ARRAY_SIZE cf))]\<rparr>)) s =
     Some (s\<lparr>arr_i := map (\<lambda>j. if j < n then w (int j mod int (STREAM_ARRAY_SIZE cf)) else arr_i s ! j)
                          [0..<length (arr_i s)]\<rparr>)"
proof (induction n)
  case 0
  show ?case by (simp add: map_nth)
next
  case (Suc n)
  let ?N = "int (STREAM_ARRAY_SIZE cf)"
  have "(map (\<lambda>j. if j < n then w (int j mod ?N) else arr_i s ! j) [0..<length (arr_i s)])[n := w (int n mod ?N)]
      = map (\<lambda>j. if j < Suc n then w (int j mod ?N) else arr_i s ! j) [0..<length (arr_i s)]"
    by (rule nth_equalityI) (simp_all add: nth_list_update less_Suc_eq)
  with assms show ?case
    by (subst for_loop_opt_Suc, simp, subst Suc) simp
qed

lemma init_i_zero:
  assumes "STREAM_ARRAY_SIZE cf = 0" "0 < STREAM_INDEX_ARRAY_SIZE cf"
  shows "init_i cf s = None"
  using assms unfolding init_i_def by (subst for_loop_opt.simps) simp

text \<open>
  The shuffle, when every offset into the index array is an \<open>int\<close>: each iteration swaps
  two of the first \<open>M\<close> entries, so what holds of them holds after any number of swaps,
  and the entries stay the same, with their multiplicities.
\<close>

lemma wrap_signed_fits:
  assumes "0 \<le> v" "v < 2 ^ (bits - 1)"
  shows "wrap_signed bits v = v"
proof -
  have "- (2 ^ (bits - 1)) \<le> (0::int)" by simp
  with assms(1) have "- (2 ^ (bits - 1)) \<le> v" by linarith
  then show ?thesis
    unfolding wrap_signed_def using assms(2) by (rule signed_take_bit_int_eq_self)
qed

lemma shuffle_body_eq:
  fixes rnd :: "nat \<Rightarrow> nat"
  assumes j: "j < STREAM_INDEX_ARRAY_SIZE cf"
    and len: "STREAM_INDEX_ARRAY_SIZE cf \<le> length (arr_i s)"
    and fit: "int (STREAM_INDEX_ARRAY_SIZE cf) \<le> 2 ^ 31"
  defines "k \<equiv> j + rnd j mod (STREAM_INDEX_ARRAY_SIZE cf - j)"
  shows "k < STREAM_INDEX_ARRAY_SIZE cf"
    and "shuffle_body cf rnd j s =
       Some (s\<lparr>arr_i := (arr_i s)[j := arr_i s ! k, k := arr_i s ! j]\<rparr>)"
proof -
  let ?M = "STREAM_INDEX_ARRAY_SIZE cf"
  have "rnd j mod (?M - j) < ?M - j" using j by simp
  then show k: "k < ?M" unfolding k_def by linarith
  have "int (rnd j) mod (int ?M - int j) = int (rnd j mod (?M - j))"
    using j by (simp add: zmod_int of_nat_diff)
  then have e: "int j + int (rnd j) mod (int ?M - int j) = int k"
    by (simp add: k_def)
  have "int k < 2 ^ (32 - 1)" using k fit by simp
  then have "wrap_signed 32 (int k) = int k"
    by (intro wrap_signed_fits) simp_all
  with e have w: "wrap_signed 32 (int j + int (rnd j) mod (int ?M - int j)) = int k" by simp
  have sub: "subscript (int k) (length (arr_i s)) = Some k"
    using k len by (simp add: subscript_def)
  from j len have "j < length (arr_i s)" by simp
  then show "shuffle_body cf rnd j s =
       Some (s\<lparr>arr_i := (arr_i s)[j := arr_i s ! k, k := arr_i s ! j]\<rparr>)"
    unfolding shuffle_body_def w by (simp add: sub Let_def)
qed

lemma shuffle_loop_props:
  assumes n: "n \<le> STREAM_INDEX_ARRAY_SIZE cf - 2"
    and len: "STREAM_INDEX_ARRAY_SIZE cf \<le> length (arr_i s)"
    and fit: "int (STREAM_INDEX_ARRAY_SIZE cf) \<le> 2 ^ 31"
    and P: "\<forall>m < STREAM_INDEX_ARRAY_SIZE cf. P (arr_i s ! m)"
  shows "\<exists>t. for_loop_opt 0 n (shuffle_body cf rnd) s = Some t
       \<and> (\<forall>m < STREAM_INDEX_ARRAY_SIZE cf. P (arr_i t ! m))
       \<and> length (arr_i t) = length (arr_i s)
       \<and> mset (arr_i t) = mset (arr_i s)
       \<and> t = s\<lparr>arr_i := arr_i t\<rparr>"
  using n
proof (induction n)
  case 0
  with P show ?case by simp
next
  case (Suc n)
  let ?M = "STREAM_INDEX_ARRAY_SIZE cf"
  from Suc obtain t where t: "for_loop_opt 0 n (shuffle_body cf rnd) s = Some t"
    "\<forall>m < ?M. P (arr_i t ! m)" "length (arr_i t) = length (arr_i s)"
    "mset (arr_i t) = mset (arr_i s)" "t = s\<lparr>arr_i := arr_i t\<rparr>"
    by auto
  from Suc.prems have j: "n < ?M" by simp
  have lt: "?M \<le> length (arr_i t)" using len t(3) by simp
  define k where "k = n + rnd n mod (?M - n)"
  note b = shuffle_body_eq [OF j lt fit, of rnd, folded k_def]
  let ?u = "t\<lparr>arr_i := (arr_i t)[n := arr_i t ! k, k := arr_i t ! n]\<rparr>"
  have run: "for_loop_opt 0 (Suc n) (shuffle_body cf rnd) s = Some ?u"
    by (simp add: for_loop_opt_Suc t(1) b(2))
  have kl: "k < length (arr_i t)" and nl: "n < length (arr_i t)"
    using b(1) j lt by simp_all
  have "\<forall>m < ?M. P (arr_i ?u ! m)"
    using t(2) b(1) j kl nl by (simp add: nth_list_update)
  moreover have "length (arr_i ?u) = length (arr_i s)" using t(3) by simp
  moreover have "mset (arr_i ?u) = mset (arr_i s)"
    using mset_swap [OF kl nl] t(4) by simp
  moreover have "?u = s\<lparr>arr_i := arr_i ?u\<rparr>"
    by (subst t(5)) simp
  ultimately show ?case using run by blast
qed

lemma subscript_Some: "0 \<le> v \<Longrightarrow> nat v < len \<Longrightarrow> subscript v len = Some (nat v)"
  by (simp add: subscript_def)

lemma Gather_loop:
  assumes "n \<le> length (arr_i s)" "n \<le> length (arr_d s)"
    and "\<forall>j<n. 0 \<le> arr_i s ! j \<and> nat (arr_i s ! j) < length (arr_a s)"
  shows "for_loop_opt 0 n gather_body s =
     Some (s\<lparr>arr_d := map (\<lambda>j. if j < n then arr_a s ! nat (arr_i s ! j) else arr_d s ! j)
                          [0..<length (arr_d s)]\<rparr>)"
  using assms
proof (induction n)
  case 0
  show ?case by (simp add: map_nth)
next
  case (Suc n)
  let ?g = "\<lambda>n j. if j < n then arr_a s ! nat (arr_i s ! j) else arr_d s ! j"
  have upd: "(map (?g n) [0..<length (arr_d s)])[n := arr_a s ! nat (arr_i s ! n)]
      = map (?g (Suc n)) [0..<length (arr_d s)]"
    by (rule nth_equalityI) (simp_all add: nth_list_update less_Suc_eq)
  from Suc.prems have ih: "for_loop_opt 0 n gather_body s =
      Some (s\<lparr>arr_d := map (?g n) [0..<length (arr_d s)]\<rparr>)"
    by (intro Suc.IH) simp_all
  from Suc.prems have "0 \<le> arr_i s ! n" "nat (arr_i s ! n) < length (arr_a s)" by simp_all
  then have sub: "subscript (arr_i s ! n) (length (arr_a s)) = Some (nat (arr_i s ! n))"
    by (rule subscript_Some)
  show ?case
    using Suc.prems(1,2)
    by (subst for_loop_opt_Suc, simp, subst ih) (simp add: gather_body_def sub upd)
qed

lemma Scatter_loop:
  assumes "n \<le> length (arr_i s)" "n \<le> length (arr_d s)"
    and "\<forall>j<n. 0 \<le> arr_i s ! j \<and> nat (arr_i s ! j) < length (arr_e s)"
  shows "for_loop_opt 0 n scatter_body s =
     Some (s\<lparr>arr_e := fold (\<lambda>j e. e[nat (arr_i s ! j) := arr_d s ! j]) [0..<n] (arr_e s)\<rparr>)"
  using assms
proof (induction n)
  case 0
  show ?case by simp
next
  case (Suc n)
  let ?e = "\<lambda>n. fold (\<lambda>j e. e[nat (arr_i s ! j) := arr_d s ! j]) [0..<n] (arr_e s)"
  have len: "length (?e n) = length (arr_e s)" for n
    by (induction n) simp_all
  from Suc.prems have ih: "for_loop_opt 0 n scatter_body s = Some (s\<lparr>arr_e := ?e n\<rparr>)"
    by (intro Suc.IH) simp_all
  from Suc.prems have "0 \<le> arr_i s ! n" "nat (arr_i s ! n) < length (arr_e s)" by simp_all
  then have sub: "subscript (arr_i s ! n) (length (arr_e s)) = Some (nat (arr_i s ! n))"
    by (rule subscript_Some)
  show ?case
    using Suc.prems(1,2)
    by (subst for_loop_opt_Suc, simp, subst ih) (simp add: scatter_body_def sub len)
qed

lemma Indirect_Dot_loop:
  assumes "n \<le> length (arr_i s)" "n \<le> length (arr_d s)"
    and "\<forall>j<n. 0 \<le> arr_i s ! j \<and> nat (arr_i s ! j) < length (arr_b s)"
  shows "for_loop_opt 0 n indirect_dot_body s =
     Some (s\<lparr>var_x := fold (\<lambda>j x. x + arr_d s ! j * arr_b s ! nat (arr_i s ! j)) [0..<n] (var_x s)\<rparr>)"
  using assms
proof (induction n)
  case 0
  show ?case by simp
next
  case (Suc n)
  from Suc.prems have ih: "for_loop_opt 0 n indirect_dot_body s =
      Some (s\<lparr>var_x := fold (\<lambda>j x. x + arr_d s ! j * arr_b s ! nat (arr_i s ! j)) [0..<n] (var_x s)\<rparr>)"
    by (intro Suc.IH) simp_all
  from Suc.prems have "0 \<le> arr_i s ! n" "nat (arr_i s ! n) < length (arr_b s)" by simp_all
  then have sub: "subscript (arr_i s ! n) (length (arr_b s)) = Some (nat (arr_i s ! n))"
    by (rule subscript_Some)
  show ?case
    using Suc.prems(1,2)
    by (subst for_loop_opt_Suc, simp, subst ih) (simp add: indirect_dot_body_def sub)
qed

text \<open>What the scattered array holds.\<close>

lemma scatter_fold_length [simp]:
  "length (fold (\<lambda>j e. e[f j := g j]) js e) = length e"
  by (induction js arbitrary: e) simp_all

lemma scatter_fold_other:
  "p \<notin> f ` set js \<Longrightarrow> fold (\<lambda>j e. e[f j := g j]) js e ! p = e ! p"
  by (induction js arbitrary: e) simp_all

lemma scatter_fold_hit:
  assumes "\<forall>j<n. \<forall>k<n. f j = f k \<longrightarrow> g j = g k" "j < n" "f j < length e"
  shows "fold (\<lambda>j e. e[f j := g j]) [0..<n] e ! f j = g j"
  using assms
proof (induction n)
  case 0
  then show ?case by simp
next
  case (Suc n)
  show ?case
  proof (cases "f j = f n")
    case True
    have "n < Suc n" by simp
    with Suc.prems(1,2) True have gj: "g j = g n" by blast
    have "f n < length (fold (\<lambda>j e. e[f j := g j]) [0..<n] e)"
      using Suc.prems(3) True by simp
    then show ?thesis by (simp add: True gj)
  next
    case False
    then have "j \<noteq> n" by blast
    with Suc.prems(2) have jn: "j < n" by simp
    from Suc.prems(1) have "\<forall>j<n. \<forall>k<n. f j = f k \<longrightarrow> g j = g k" by simp
    from Suc.IH [OF this jn Suc.prems(3)]
    have "fold (\<lambda>j e. e[f j := g j]) [0..<n] e ! f j = g j" .
    with False show ?thesis by simp
  qed
qed


section \<open>A trial on arrays with equal elements\<close>

lemma mandatory_kernels_uniform:
  fixes s :: "'a::{plus,times} buffers" and sc :: 'a
  assumes "STREAM_ARRAY_SIZE cf \<le> length (arr_a s)" "STREAM_ARRAY_SIZE cf \<le> length (arr_b s)"
    "STREAM_ARRAY_SIZE cf \<le> length (arr_c s)"
    and "uniform (STREAM_ARRAY_SIZE cf) (arr_a s) av"
  defines "s4 \<equiv> STREAM_Triad cf sc (STREAM_Add cf (STREAM_Scale cf sc (STREAM_Copy cf s)))"
  shows "uniform (STREAM_ARRAY_SIZE cf) (arr_a s4) (sc * av + sc * (av + sc * av))"
    and "uniform (STREAM_ARRAY_SIZE cf) (arr_b s4) (sc * av)"
    and "uniform (STREAM_ARRAY_SIZE cf) (arr_c s4) (av + sc * av)"
    and "length (arr_a s4) = length (arr_a s)"
    and "length (arr_b s4) = length (arr_b s)"
    and "length (arr_c s4) = length (arr_c s)"
    and "arr_d s4 = arr_d s" and "arr_i s4 = arr_i s" and "arr_e s4 = arr_e s"
    and "var_x s4 = var_x s"
  using assms(1-4) unfolding s4_def uniform_def
  by (simp_all add: STREAM_Copy_eq STREAM_Scale_eq STREAM_Add_eq STREAM_Triad_eq)


lemma STREAM_Gather_eq:
  assumes "STREAM_INDEX_ARRAY_SIZE cf \<le> length (arr_i s)"
    "STREAM_INDEX_ARRAY_SIZE cf \<le> length (arr_d s)"
    and "\<forall>j<STREAM_INDEX_ARRAY_SIZE cf. 0 \<le> arr_i s ! j \<and> nat (arr_i s ! j) < length (arr_a s)"
  shows "STREAM_Gather cf s =
     Some (s\<lparr>arr_d := map (\<lambda>j. if j < STREAM_INDEX_ARRAY_SIZE cf
                                then arr_a s ! nat (arr_i s ! j) else arr_d s ! j)
                          [0..<length (arr_d s)]\<rparr>)"
  unfolding STREAM_Gather_def using assms by (rule Gather_loop)

lemma STREAM_Scatter_eq:
  assumes "STREAM_INDEX_ARRAY_SIZE cf \<le> length (arr_i s)"
    "STREAM_INDEX_ARRAY_SIZE cf \<le> length (arr_d s)"
    and "\<forall>j<STREAM_INDEX_ARRAY_SIZE cf. 0 \<le> arr_i s ! j \<and> nat (arr_i s ! j) < length (arr_e s)"
  shows "STREAM_Scatter cf s =
     Some (s\<lparr>arr_e := fold (\<lambda>j e. e[nat (arr_i s ! j) := arr_d s ! j])
                           [0..<STREAM_INDEX_ARRAY_SIZE cf] (arr_e s)\<rparr>)"
  unfolding STREAM_Scatter_def using assms by (rule Scatter_loop)

lemma STREAM_Indirect_Dot_eq:
  fixes s :: "'a::{zero,plus,times} buffers"
  assumes "STREAM_INDEX_ARRAY_SIZE cf \<le> length (arr_i s)"
    "STREAM_INDEX_ARRAY_SIZE cf \<le> length (arr_d s)"
    and "\<forall>j<STREAM_INDEX_ARRAY_SIZE cf. 0 \<le> arr_i s ! j \<and> nat (arr_i s ! j) < length (arr_b s)"
  shows "STREAM_Indirect_Dot cf s =
     Some (s\<lparr>var_x := fold (\<lambda>j x. x + arr_d s ! j * arr_b s ! nat (arr_i s ! j))
                           [0..<STREAM_INDEX_ARRAY_SIZE cf] 0\<rparr>)"
proof -
  have "for_loop_opt 0 (STREAM_INDEX_ARRAY_SIZE cf) indirect_dot_body (s\<lparr>var_x := 0\<rparr>) =
     Some (s\<lparr>var_x := 0\<rparr>\<lparr>var_x := fold (\<lambda>j x. x + arr_d (s\<lparr>var_x := 0\<rparr>) ! j
                * arr_b (s\<lparr>var_x := 0\<rparr>) ! nat (arr_i (s\<lparr>var_x := 0\<rparr>) ! j))
                           [0..<STREAM_INDEX_ARRAY_SIZE cf] (var_x (s\<lparr>var_x := 0\<rparr>))\<rparr>)"
    by (rule Indirect_Dot_loop) (use assms in simp_all)
  then show ?thesis by (simp add: STREAM_Indirect_Dot_def)
qed

lemma gather_stage:
  fixes s :: "'a buffers"
  assumes ws: "well_sized cf s" and idx: "indexed_kernels cf \<longrightarrow> index_in_range cf s"
    and ua: "uniform (STREAM_ARRAY_SIZE cf) (arr_a s) av"
    and ud: "d_uniform cf s dv"
  shows "\<exists>t. (if ENABLE_GATHER cf then STREAM_Gather cf s else Some s) = Some t
     \<and> arr_a t = arr_a s \<and> arr_b t = arr_b s \<and> arr_c t = arr_c s \<and> arr_i t = arr_i s
     \<and> arr_e t = arr_e s \<and> length (arr_d t) = length (arr_d s)
     \<and> d_uniform cf t (if ENABLE_GATHER cf then av else dv)"
proof (cases "ENABLE_GATHER cf")
  case False
  with ud show ?thesis by (simp add: d_uniform_def)
next
  case True
  then have ik: "indexed_kernels cf" by (simp add: indexed_kernels_def)
  with ws have l: "STREAM_INDEX_ARRAY_SIZE cf \<le> length (arr_i s)"
    "STREAM_INDEX_ARRAY_SIZE cf \<le> length (arr_d s)"
    "length (arr_a s) = STREAM_ARRAY_SIZE cf + OFFSET cf"
    by (simp_all add: well_sized_def)
  from ik idx have r: "\<forall>j<STREAM_INDEX_ARRAY_SIZE cf.
      0 \<le> arr_i s ! j \<and> nat (arr_i s ! j) < STREAM_ARRAY_SIZE cf"
    by (auto simp: index_in_range_def)
  then have r': "\<forall>j<STREAM_INDEX_ARRAY_SIZE cf.
      0 \<le> arr_i s ! j \<and> nat (arr_i s ! j) < length (arr_a s)"
    using l(3) by auto
  have "uniform (STREAM_INDEX_ARRAY_SIZE cf)
     (map (\<lambda>j. if j < STREAM_INDEX_ARRAY_SIZE cf then arr_a s ! nat (arr_i s ! j) else arr_d s ! j)
          [0..<length (arr_d s)]) av"
    using ua r l(2) by (auto simp: uniform_def)
  then show ?thesis
    using True by (simp add: STREAM_Gather_eq [OF l(1,2) r'] d_uniform_def)
qed

lemma scatter_stage:
  fixes s :: "'a buffers"
  assumes ws: "well_sized cf s" and idx: "indexed_kernels cf \<longrightarrow> index_in_range cf s"
    and ud: "d_uniform cf s dv"
  shows "\<exists>t. (if ENABLE_SCATTER cf then STREAM_Scatter cf s else Some s) = Some t
     \<and> arr_a t = arr_a s \<and> arr_b t = arr_b s \<and> arr_c t = arr_c s \<and> arr_i t = arr_i s
     \<and> arr_d t = arr_d s \<and> length (arr_e t) = length (arr_e s)
     \<and> (ENABLE_SCATTER cf \<longrightarrow>
          (\<forall>j<STREAM_INDEX_ARRAY_SIZE cf. arr_e t ! nat (arr_i t ! j) = dv))"
proof (cases "ENABLE_SCATTER cf")
  case False
  then show ?thesis by simp
next
  case True
  then have ik: "indexed_kernels cf" by (simp add: indexed_kernels_def)
  with ws True have l: "STREAM_INDEX_ARRAY_SIZE cf \<le> length (arr_i s)"
    "STREAM_INDEX_ARRAY_SIZE cf \<le> length (arr_d s)"
    "length (arr_e s) = STREAM_ARRAY_SIZE cf + OFFSET cf"
    by (simp_all add: well_sized_def)
  from ik idx have r: "\<forall>j<STREAM_INDEX_ARRAY_SIZE cf.
      0 \<le> arr_i s ! j \<and> nat (arr_i s ! j) < STREAM_ARRAY_SIZE cf"
    by (auto simp: index_in_range_def)
  then have r': "\<forall>j<STREAM_INDEX_ARRAY_SIZE cf.
      0 \<le> arr_i s ! j \<and> nat (arr_i s ! j) < length (arr_e s)"
    using l(3) by auto
  let ?f = "\<lambda>j. nat (arr_i s ! j)" and ?g = "\<lambda>j. arr_d s ! j"
  have cons: "\<forall>j<STREAM_INDEX_ARRAY_SIZE cf. \<forall>k<STREAM_INDEX_ARRAY_SIZE cf. ?f j = ?f k \<longrightarrow> ?g j = ?g k"
    using ud ik by (simp add: uniform_def d_uniform_def)
  have "fold (\<lambda>j e. e[?f j := ?g j]) [0..<STREAM_INDEX_ARRAY_SIZE cf] (arr_e s) ! ?f j = dv"
    if "j < STREAM_INDEX_ARRAY_SIZE cf" for j
  proof -
    from r' that have "?f j < length (arr_e s)" by simp
    from scatter_fold_hit [of "STREAM_INDEX_ARRAY_SIZE cf" ?f ?g, OF cons that this]
    show ?thesis using ud ik that by (simp add: uniform_def d_uniform_def)
  qed
  then show ?thesis
    using True by (simp add: STREAM_Scatter_eq [OF l(1,2) r'])
qed

lemma dot_stage:
  fixes s :: "'a::{zero,plus,times} buffers"
  assumes ws: "well_sized cf s" and idx: "indexed_kernels cf \<longrightarrow> index_in_range cf s"
  shows "\<exists>t. (if ENABLE_INDIRECT_DOT_PRODUCT cf then STREAM_Indirect_Dot cf s else Some s) = Some t
     \<and> arr_a t = arr_a s \<and> arr_b t = arr_b s \<and> arr_c t = arr_c s \<and> arr_i t = arr_i s
     \<and> arr_d t = arr_d s \<and> arr_e t = arr_e s"
proof (cases "ENABLE_INDIRECT_DOT_PRODUCT cf")
  case False
  then show ?thesis by simp
next
  case True
  then have ik: "indexed_kernels cf" by (simp add: indexed_kernels_def)
  with ws True have l: "STREAM_INDEX_ARRAY_SIZE cf \<le> length (arr_i s)"
    "STREAM_INDEX_ARRAY_SIZE cf \<le> length (arr_d s)"
    "length (arr_b s) = STREAM_ARRAY_SIZE cf + OFFSET cf"
    by (simp_all add: well_sized_def)
  from ik idx have r: "\<forall>j<STREAM_INDEX_ARRAY_SIZE cf.
      0 \<le> arr_i s ! j \<and> nat (arr_i s ! j) < STREAM_ARRAY_SIZE cf"
    by (auto simp: index_in_range_def)
  then have r': "\<forall>j<STREAM_INDEX_ARRAY_SIZE cf.
      0 \<le> arr_i s ! j \<and> nat (arr_i s ! j) < length (arr_b s)"
    using l(3) by auto
  show ?thesis
    using True by (simp add: STREAM_Indirect_Dot_eq [OF l(1,2) r'])
qed


lemma trial_step:
  fixes s :: "'a::{zero,plus,times} buffers" and sc :: 'a
  assumes ws: "well_sized cf s" and idx: "indexed_kernels cf \<longrightarrow> index_in_range cf s"
    and ua: "uniform (STREAM_ARRAY_SIZE cf) (arr_a s) av"
    and ud: "d_uniform cf s dv"
  defines "av' \<equiv> sc * av + sc * (av + sc * av)"
  shows "\<exists>t. trial cf sc s = Some t \<and> well_sized cf t \<and> arr_i t = arr_i s
     \<and> uniform (STREAM_ARRAY_SIZE cf) (arr_a t) av'
     \<and> uniform (STREAM_ARRAY_SIZE cf) (arr_b t) (sc * av)
     \<and> uniform (STREAM_ARRAY_SIZE cf) (arr_c t) (av + sc * av)
     \<and> d_uniform cf t (if ENABLE_GATHER cf then av' else dv)
     \<and> (ENABLE_SCATTER cf \<longrightarrow>
          (\<forall>j<STREAM_INDEX_ARRAY_SIZE cf.
             arr_e t ! nat (arr_i t ! j) = (if ENABLE_GATHER cf then av' else dv)))"
proof -
  define s4 where "s4 = STREAM_Triad cf sc (STREAM_Add cf (STREAM_Scale cf sc (STREAM_Copy cf s)))"
  from ws have l: "STREAM_ARRAY_SIZE cf \<le> length (arr_a s)"
    "STREAM_ARRAY_SIZE cf \<le> length (arr_b s)" "STREAM_ARRAY_SIZE cf \<le> length (arr_c s)"
    by (simp_all add: well_sized_def)
  note m = mandatory_kernels_uniform [OF l ua, of sc, folded s4_def av'_def]
  have ws4: "well_sized cf s4" using ws m(4-9) by (simp add: well_sized_def)
  have idx4: "indexed_kernels cf \<longrightarrow> index_in_range cf s4"
    using idx m(8) by (simp add: index_in_range_def)
  have ud4: "d_uniform cf s4 dv" using ud m(7) by (simp add: d_uniform_def)
  let ?dv = "if ENABLE_GATHER cf then av' else dv"
  from gather_stage [OF ws4 idx4 m(1) ud4]
  obtain sg where g: "(if ENABLE_GATHER cf then STREAM_Gather cf s4 else Some s4) = Some sg"
    "arr_a sg = arr_a s4" "arr_b sg = arr_b s4" "arr_c sg = arr_c s4" "arr_i sg = arr_i s4"
    "arr_e sg = arr_e s4" "length (arr_d sg) = length (arr_d s4)"
    "d_uniform cf sg ?dv" by blast
  have wsg: "well_sized cf sg" using ws4 g(2-7) by (simp add: well_sized_def)
  have idxg: "indexed_kernels cf \<longrightarrow> index_in_range cf sg"
    using idx4 g(5) by (simp add: index_in_range_def)
  from scatter_stage [OF wsg idxg g(8)]
  obtain ss where sc: "(if ENABLE_SCATTER cf then STREAM_Scatter cf sg else Some sg) = Some ss"
    "arr_a ss = arr_a sg" "arr_b ss = arr_b sg" "arr_c ss = arr_c sg" "arr_i ss = arr_i sg"
    "arr_d ss = arr_d sg" "length (arr_e ss) = length (arr_e sg)"
    "ENABLE_SCATTER cf \<longrightarrow>
       (\<forall>j<STREAM_INDEX_ARRAY_SIZE cf. arr_e ss ! nat (arr_i ss ! j) = ?dv)" by blast
  have wss: "well_sized cf ss" using wsg sc(2-7) by (simp add: well_sized_def)
  have idxs: "indexed_kernels cf \<longrightarrow> index_in_range cf ss"
    using idxg sc(5) by (simp add: index_in_range_def)
  from dot_stage [OF wss idxs]
  obtain t where d: "(if ENABLE_INDIRECT_DOT_PRODUCT cf then STREAM_Indirect_Dot cf ss else Some ss) = Some t"
    "arr_a t = arr_a ss" "arr_b t = arr_b ss" "arr_c t = arr_c ss" "arr_i t = arr_i ss"
    "arr_d t = arr_d ss" "arr_e t = arr_e ss" by blast
  have wst: "well_sized cf t" using wss d(2-7) by (simp add: well_sized_def)
  have "trial cf sc s = Some t"
    unfolding trial_def Let_def s4_def [symmetric] g(1) option.case sc(1) d(1) ..
  moreover have "arr_i t = arr_i s" using d(5) sc(5) g(5) m(8) by simp
  moreover have "uniform (STREAM_ARRAY_SIZE cf) (arr_a t) av'"
    "uniform (STREAM_ARRAY_SIZE cf) (arr_b t) (sc * av)"
    "uniform (STREAM_ARRAY_SIZE cf) (arr_c t) (av + sc * av)"
    using m(1-3) g(2-4) sc(2-4) d(2-4) by simp_all
  moreover have "d_uniform cf t ?dv"
    using g(8) sc(6) d(6) by (simp add: d_uniform_def)
  moreover have "ENABLE_SCATTER cf \<longrightarrow>
       (\<forall>j<STREAM_INDEX_ARRAY_SIZE cf. arr_e t ! nat (arr_i t ! j) = ?dv)"
    using sc(8) d(5,7) by simp
  ultimately show ?thesis using wst by blast
qed

lemma expected_step_fields:
  "aj (expected_step T cf sc r) = sc * aj r + sc * (aj r + sc * aj r)"
  "bj (expected_step T cf sc r) = sc * aj r"
  "cj (expected_step T cf sc r) = aj r + sc * aj r"
  "dj (expected_step T cf sc r) =
     (if ENABLE_GATHER cf then Some (sc * aj r + sc * (aj r + sc * aj r)) else dj r)"
  "ej (expected_step T cf sc r) =
     (if ENABLE_SCATTER cf
      then (if ENABLE_GATHER cf then Some (sc * aj r + sc * (aj r + sc * aj r))
            else Some (demote T (Fin 0)))
      else ej r)"
  by (simp_all add: expected_step_def Let_def)

lemma trials_Suc:
  "trials cf sc (Suc k) s = (case trials cf sc k s of None \<Rightarrow> None | Some t \<Rightarrow> trial cf sc t)"
  by (simp add: trials_def for_loop_opt_Suc)

lemma main_loop_eq: "main_loop T cf s = trials cf (demote T (Fin 3)) (NTIMES cf) s"
  by (simp add: main_loop_def)

lemma trials_track:
  fixes s0 :: "'a::{zero,plus,times} buffers" and sc :: 'a and T :: "'a stream_type"
  assumes ws: "well_sized cf s0" and idx: "indexed_kernels cf \<longrightarrow> index_in_range cf s0"
    and ua: "uniform (STREAM_ARRAY_SIZE cf) (arr_a s0) (aj r0)"
    and ub: "uniform (STREAM_ARRAY_SIZE cf) (arr_b s0) (bj r0)"
    and uc: "uniform (STREAM_ARRAY_SIZE cf) (arr_c s0) (cj r0)"
    and ud: "d_uniform cf s0 dv0"
  defines "r \<equiv> \<lambda>k. for_loop 0 k (\<lambda>k. expected_step T cf sc) r0"
  shows "\<exists>s. trials cf sc k s0 = Some s \<and> well_sized cf s \<and> arr_i s = arr_i s0
     \<and> uniform (STREAM_ARRAY_SIZE cf) (arr_a s) (aj (r k))
     \<and> uniform (STREAM_ARRAY_SIZE cf) (arr_b s) (bj (r k))
     \<and> uniform (STREAM_ARRAY_SIZE cf) (arr_c s) (cj (r k))
     \<and> d_uniform cf s (if ENABLE_GATHER cf \<and> 0 < k then aj (r k) else dv0)
     \<and> (ENABLE_SCATTER cf \<and> 0 < k \<longrightarrow>
          (\<forall>j<STREAM_INDEX_ARRAY_SIZE cf.
             arr_e s ! nat (arr_i s ! j) = (if ENABLE_GATHER cf then aj (r k) else dv0)))
     \<and> (ENABLE_GATHER cf \<and> 0 < k \<longrightarrow> dj (r k) = Some (aj (r k)))
     \<and> (ENABLE_SCATTER cf \<and> 0 < k \<longrightarrow>
          ej (r k) = Some (if ENABLE_GATHER cf then aj (r k) else demote T (Fin 0)))"
proof (induction k)
  case 0
  show ?case using assms by (simp add: trials_def)
next
  case (Suc k)
  then obtain s where s: "trials cf sc k s0 = Some s" "well_sized cf s" "arr_i s = arr_i s0"
    "uniform (STREAM_ARRAY_SIZE cf) (arr_a s) (aj (r k))"
    "d_uniform cf s (if ENABLE_GATHER cf \<and> 0 < k then aj (r k) else dv0)" by blast
  have idxs: "indexed_kernels cf \<longrightarrow> index_in_range cf s"
    using idx s(3) by (simp add: index_in_range_def)
  have rS: "r (Suc k) = expected_step T cf sc (r k)"
    by (simp add: r_def for_loop_Suc)
  from trial_step [OF s(2) idxs s(4) s(5), of sc]
  obtain t where t: "trial cf sc s = Some t" "well_sized cf t" "arr_i t = arr_i s"
    "uniform (STREAM_ARRAY_SIZE cf) (arr_a t) (sc * aj (r k) + sc * (aj (r k) + sc * aj (r k)))"
    "uniform (STREAM_ARRAY_SIZE cf) (arr_b t) (sc * aj (r k))"
    "uniform (STREAM_ARRAY_SIZE cf) (arr_c t) (aj (r k) + sc * aj (r k))"
    "d_uniform cf t (if ENABLE_GATHER cf then sc * aj (r k) + sc * (aj (r k) + sc * aj (r k))
        else (if ENABLE_GATHER cf \<and> 0 < k then aj (r k) else dv0))"
    "ENABLE_SCATTER cf \<longrightarrow>
       (\<forall>j<STREAM_INDEX_ARRAY_SIZE cf. arr_e t ! nat (arr_i t ! j) =
          (if ENABLE_GATHER cf then sc * aj (r k) + sc * (aj (r k) + sc * aj (r k))
           else (if ENABLE_GATHER cf \<and> 0 < k then aj (r k) else dv0)))" by blast
  have "trials cf sc (Suc k) s0 = Some t" by (simp add: trials_Suc s(1) t(1))
  then show ?case
    using t s(3) by (cases "ENABLE_GATHER cf") (simp_all add: rS expected_step_fields)
qed


section \<open>The state after the setup\<close>

lemma init_i_eq:
  assumes "0 < STREAM_ARRAY_SIZE cf"
  shows "init_i cf s =
     Some (s\<lparr>arr_i := map (\<lambda>j. if j < STREAM_INDEX_ARRAY_SIZE cf
                                then wrap_signed (INDEX_TYPE_bits cf) (int j mod int (STREAM_ARRAY_SIZE cf))
                                else arr_i s ! j)
                          [0..<length (arr_i s)]\<rparr>)"
  unfolding init_i_def using assms by (rule init_i_loop)

lemma setup_index_props:
  assumes fits: "index_fits cf" and len: "STREAM_INDEX_ARRAY_SIZE cf \<le> length (arr_i s)"
  shows "\<exists>t. setup_index cf rnd s = Some t \<and> index_in_range cf t
     \<and> length (arr_i t) = length (arr_i s) \<and> t = s\<lparr>arr_i := arr_i t\<rparr>
     \<and> mset (arr_i t) =
         mset (map (\<lambda>j. if j < STREAM_INDEX_ARRAY_SIZE cf
                          then int j mod int (STREAM_ARRAY_SIZE cf) else arr_i s ! j)
                   [0..<length (arr_i s)])"
proof -
  let ?M = "STREAM_INDEX_ARRAY_SIZE cf" and ?N = "STREAM_ARRAY_SIZE cf"
  from fits have N: "0 < ?N" and NB: "int ?N \<le> 2 ^ (INDEX_TYPE_bits cf - 1)"
    by (simp_all add: index_fits_def)
  have w: "wrap_signed (INDEX_TYPE_bits cf) (int j mod int ?N) = int j mod int ?N" for j
  proof (rule wrap_signed_fits)
    show "0 \<le> int j mod int ?N" using N by simp
    have "int j mod int ?N < int ?N" using N by simp
    with NB show "int j mod int ?N < 2 ^ (INDEX_TYPE_bits cf - 1)" by linarith
  qed
  define t0 where "t0 = s\<lparr>arr_i := map (\<lambda>j. if j < ?M then int j mod int ?N else arr_i s ! j)
                          [0..<length (arr_i s)]\<rparr>"
  have i0: "init_i cf s = Some t0" unfolding t0_def using init_i_eq [OF N, of s] by (simp add: w)
  have l0: "?M \<le> length (arr_i t0)" using len by (simp add: t0_def)
  have r0: "\<forall>m < ?M. 0 \<le> arr_i t0 ! m \<and> arr_i t0 ! m < int ?N"
    using len N by (simp add: t0_def)
  show ?thesis
  proof (cases "PERMUTE_INDEX_ARRAY cf")
    case False
    then have "setup_index cf rnd s = Some t0" by (simp add: setup_index_def i0)
    moreover have "t0 = s\<lparr>arr_i := arr_i t0\<rparr>" by (simp add: t0_def)
    ultimately show ?thesis using r0 by (simp add: index_in_range_def t0_def)
  next
    case True
    with fits have fit: "int ?M \<le> 2 ^ 31" by (simp add: index_fits_def)
    have le: "?M - 2 \<le> ?M - 2" by simp
    from shuffle_loop_props [OF le l0 fit, of "\<lambda>v. 0 \<le> v \<and> v < int ?N" rnd, OF r0]
    obtain t where t: "shuffle cf rnd t0 = Some t"
      "\<forall>m < ?M. 0 \<le> arr_i t ! m \<and> arr_i t ! m < int ?N"
      "length (arr_i t) = length (arr_i t0)" "mset (arr_i t) = mset (arr_i t0)"
      "t = t0\<lparr>arr_i := arr_i t\<rparr>"
      unfolding shuffle_def by blast
    have "setup_index cf rnd s = Some t"
      using True by (simp add: setup_index_def i0 t(1))
    moreover have "t = s\<lparr>arr_i := arr_i t\<rparr>"
      by (subst t(5)) (simp add: t0_def)
    ultimately show ?thesis using t(2-4) by (simp add: index_in_range_def t0_def)
  qed
qed

lemma init_abc_eq:
  "init_abc T cf s =
     s\<lparr>arr_a := map (\<lambda>j. if j < STREAM_ARRAY_SIZE cf then demote T (Fin 1) else arr_a s ! j)
                    [0..<length (arr_a s)],
       arr_b := map (\<lambda>j. if j < STREAM_ARRAY_SIZE cf then demote T (Fin 2) else arr_b s ! j)
                    [0..<length (arr_b s)],
       arr_c := map (\<lambda>j. if j < STREAM_ARRAY_SIZE cf then demote T (Fin 0) else arr_c s ! j)
                    [0..<length (arr_c s)]\<rparr>"
  by (simp add: init_abc_def init_abc_loop)

lemma init_d_eq:
  "init_d T cf s =
     s\<lparr>arr_d := map (\<lambda>j. if j < STREAM_INDEX_ARRAY_SIZE cf then demote T (Fin 1) else arr_d s ! j)
                    [0..<length (arr_d s)]\<rparr>"
  by (simp add: init_d_def init_d_loop)

lemma init_e_eq:
  "init_e T cf s =
     s\<lparr>arr_e := map (\<lambda>j. if j < STREAM_ARRAY_SIZE cf then demote T (Fin 0) else arr_e s ! j)
                    [0..<length (arr_e s)]\<rparr>"
  by (simp add: init_e_def init_e_loop)

lemma main_setup_props:
  fixes T :: "'a::zero stream_type"
  assumes N: "indexed_kernels cf \<longrightarrow> index_fits cf"
  shows "\<exists>s. main_setup T cf rnd = Some s \<and> well_sized cf s
     \<and> (indexed_kernels cf \<longrightarrow> index_in_range cf s)
     \<and> uniform (STREAM_ARRAY_SIZE cf) (arr_a s) (demote T (Fin 1))
     \<and> uniform (STREAM_ARRAY_SIZE cf) (arr_b s) (demote T (Fin 2))
     \<and> uniform (STREAM_ARRAY_SIZE cf) (arr_c s) (demote T (Fin 0))
     \<and> d_uniform cf s (demote T (Fin 1))"
proof -
  define s1 :: "'a buffers" where "s1 = init_abc T cf (static_buffers cf)"
  have s1: "well_sized cf s1" "uniform (STREAM_ARRAY_SIZE cf) (arr_a s1) (demote T (Fin 1))"
    "uniform (STREAM_ARRAY_SIZE cf) (arr_b s1) (demote T (Fin 2))"
    "uniform (STREAM_ARRAY_SIZE cf) (arr_c s1) (demote T (Fin 0))"
    by (simp_all add: s1_def init_abc_eq static_buffers_def well_sized_def uniform_def)
  have "\<exists>s2. (if indexed_kernels cf then setup_index cf rnd (init_d T cf s1) else Some s1) = Some s2
     \<and> well_sized cf s2 \<and> (indexed_kernels cf \<longrightarrow> index_in_range cf s2)
     \<and> arr_a s2 = arr_a s1 \<and> arr_b s2 = arr_b s1 \<and> arr_c s2 = arr_c s1
     \<and> d_uniform cf s2 (demote T (Fin 1))"
  proof (cases "indexed_kernels cf")
    case False
    then show ?thesis using s1(1) by (simp add: d_uniform_def)
  next
    case True
    with N have N': "index_fits cf" by simp
    have len: "STREAM_INDEX_ARRAY_SIZE cf \<le> length (arr_i (init_d T cf s1))"
      using s1(1) True by (simp add: init_d_eq well_sized_def)
    from setup_index_props [OF N' len, of rnd]
    obtain t where t: "setup_index cf rnd (init_d T cf s1) = Some t" "index_in_range cf t"
      "length (arr_i t) = length (arr_i (init_d T cf s1))" "t = (init_d T cf s1)\<lparr>arr_i := arr_i t\<rparr>"
      by blast
    have f: "arr_a t = arr_a s1" "arr_b t = arr_b s1" "arr_c t = arr_c s1" "arr_e t = arr_e s1"
      "arr_d t = arr_d (init_d T cf s1)"
      by (subst t(4), simp add: init_d_eq)+
    have "well_sized cf t" using s1(1) f t(3) by (simp add: well_sized_def init_d_eq)
    moreover have "d_uniform cf t (demote T (Fin 1))"
      using s1(1) True by (simp add: f(5) d_uniform_def uniform_def init_d_eq well_sized_def)
    ultimately show ?thesis using True t(1,2) f(1-3) by simp
  qed
  then obtain s2 where s2:
    "(if indexed_kernels cf then setup_index cf rnd (init_d T cf s1) else Some s1) = Some s2"
    "well_sized cf s2" "indexed_kernels cf \<longrightarrow> index_in_range cf s2"
    "arr_a s2 = arr_a s1" "arr_b s2 = arr_b s1" "arr_c s2 = arr_c s1"
    "d_uniform cf s2 (demote T (Fin 1))"
    by blast
  define s3 where "s3 = (if ENABLE_SCATTER cf then init_e T cf s2 else s2)"
  have "main_setup T cf rnd = Some s3"
    unfolding main_setup_def Let_def s1_def [symmetric] s2(1) option.case s3_def ..
  moreover have "well_sized cf s3" using s2(2) by (simp add: s3_def init_e_eq well_sized_def)
  moreover have "indexed_kernels cf \<longrightarrow> index_in_range cf s3"
    using s2(3) by (simp add: s3_def init_e_eq index_in_range_def)
  moreover have "arr_a s3 = arr_a s1" "arr_b s3 = arr_b s1" "arr_c s3 = arr_c s1"
    using s2(4-6) by (simp_all add: s3_def init_e_eq)
  moreover have "d_uniform cf s3 (demote T (Fin 1))"
    using s2(7) by (simp add: s3_def init_e_eq d_uniform_def)
  ultimately show ?thesis using s1(2-4) by simp
qed

lemma for_loop_opt_preserves:
  assumes "\<And>j v w. body j v = Some w \<Longrightarrow> f w = f v"
    and "for_loop_opt 0 n body u = Some t"
  shows "f t = f u"
  using assms(2)
proof (induction n arbitrary: t)
  case 0
  then show ?case by simp
next
  case (Suc n)
  then obtain v where v: "for_loop_opt 0 n body u = Some v" "body n v = Some t"
    by (auto simp: for_loop_opt_Suc split: option.splits)
  from Suc.IH [OF v(1)] assms(1) [OF v(2)] show ?case by simp
qed

lemma for_loop_opt_prefix:
  assumes "for_loop_opt 0 n body s = Some t" and "k \<le> n"
  shows "\<exists>u. for_loop_opt 0 k body s = Some u"
  using assms
proof (induction n arbitrary: t)
  case 0
  then show ?case by simp
next
  case (Suc n)
  show ?case
  proof (cases "k = Suc n")
    case True
    with Suc.prems(1) show ?thesis by blast
  next
    case False
    with Suc.prems(2) have kn: "k \<le> n" by simp
    from Suc.prems(1) obtain v where "for_loop_opt 0 n body s = Some v"
      by (auto simp: for_loop_opt_Suc split: option.splits)
    from Suc.IH [OF this kn] show ?thesis .
  qed
qed

section \<open>A trial on any arrays\<close>

text \<open>The indexed kernels leave \<open>a\<close>, \<open>b\<close> and \<open>c\<close> as they are.\<close>

lemma indexed_kernels_frame:
  fixes s :: "'a::{zero,plus,times} buffers"
  shows "STREAM_Gather cf s = Some t \<Longrightarrow> arr_a t = arr_a s \<and> arr_b t = arr_b s \<and> arr_c t = arr_c s"
    and "STREAM_Scatter cf s = Some t \<Longrightarrow> arr_a t = arr_a s \<and> arr_b t = arr_b s \<and> arr_c t = arr_c s"
    and "STREAM_Indirect_Dot cf s = Some t \<Longrightarrow> arr_a t = arr_a s \<and> arr_b t = arr_b s \<and> arr_c t = arr_c s"
proof -
  let ?f = "\<lambda>s :: 'a buffers. (arr_a s, arr_b s, arr_c s)"
  have g: "gather_body j v = Some w \<Longrightarrow> ?f w = ?f v" for j and v w :: "'a buffers"
    by (auto simp: gather_body_def split: if_splits option.splits)
  have sc: "scatter_body j v = Some w \<Longrightarrow> ?f w = ?f v" for j and v w :: "'a buffers"
    by (auto simp: scatter_body_def split: if_splits option.splits)
  have d: "indirect_dot_body j v = Some w \<Longrightarrow> ?f w = ?f v" for j and v w :: "'a buffers"
    by (auto simp: indirect_dot_body_def split: if_splits option.splits)
  show "arr_a t = arr_a s \<and> arr_b t = arr_b s \<and> arr_c t = arr_c s" if "STREAM_Gather cf s = Some t"
  proof -
    have "?f t = ?f s"
      by (rule for_loop_opt_preserves [where body = gather_body and f = ?f,
            OF _ that [unfolded STREAM_Gather_def]]) (erule g)
    then show ?thesis by simp
  qed
  show "arr_a t = arr_a s \<and> arr_b t = arr_b s \<and> arr_c t = arr_c s" if "STREAM_Scatter cf s = Some t"
  proof -
    have "?f t = ?f s"
      by (rule for_loop_opt_preserves [where body = scatter_body and f = ?f,
            OF _ that [unfolded STREAM_Scatter_def]]) (erule sc)
    then show ?thesis by simp
  qed
  show "arr_a t = arr_a s \<and> arr_b t = arr_b s \<and> arr_c t = arr_c s"
    if "STREAM_Indirect_Dot cf s = Some t"
  proof -
    have "?f t = ?f (s\<lparr>var_x := 0\<rparr>)"
      by (rule for_loop_opt_preserves [where body = indirect_dot_body and f = ?f,
            OF _ that [unfolded STREAM_Indirect_Dot_def]]) (erule d)
    then show ?thesis by simp
  qed
qed

text \<open>
  A trial that returns has run the four kernels and then the enabled indexed ones, and
  \<open>a\<close>, \<open>b\<close>, \<open>c\<close> are as Triad left them.
\<close>

lemma trial_stages:
  fixes s :: "'a::{zero,plus,times} buffers"
  assumes "trial cf sc s = Some t"
  defines "s4 \<equiv> STREAM_Triad cf sc (STREAM_Add cf (STREAM_Scale cf sc (STREAM_Copy cf s)))"
  shows "\<exists>s5 s6. (if ENABLE_GATHER cf then STREAM_Gather cf s4 else Some s4) = Some s5
       \<and> (if ENABLE_SCATTER cf then STREAM_Scatter cf s5 else Some s5) = Some s6
       \<and> (if ENABLE_INDIRECT_DOT_PRODUCT cf then STREAM_Indirect_Dot cf s6 else Some s6) = Some t"
    and "arr_a t = arr_a s4" and "arr_b t = arr_b s4" and "arr_c t = arr_c s4"
proof -
  from assms(1) obtain s5 s6 where st:
    "(if ENABLE_GATHER cf then STREAM_Gather cf s4 else Some s4) = Some s5"
    "(if ENABLE_SCATTER cf then STREAM_Scatter cf s5 else Some s5) = Some s6"
    "(if ENABLE_INDIRECT_DOT_PRODUCT cf then STREAM_Indirect_Dot cf s6 else Some s6) = Some t"
    unfolding trial_def Let_def s4_def [symmetric] by (auto split: option.splits)
  then show "\<exists>s5 s6. (if ENABLE_GATHER cf then STREAM_Gather cf s4 else Some s4) = Some s5
       \<and> (if ENABLE_SCATTER cf then STREAM_Scatter cf s5 else Some s5) = Some s6
       \<and> (if ENABLE_INDIRECT_DOT_PRODUCT cf then STREAM_Indirect_Dot cf s6 else Some s6) = Some t"
    by blast
  have 5: "arr_a s5 = arr_a s4 \<and> arr_b s5 = arr_b s4 \<and> arr_c s5 = arr_c s4"
    using st(1) indexed_kernels_frame(1) [of cf s4 s5] by (auto split: if_splits)
  have 6: "arr_a s6 = arr_a s5 \<and> arr_b s6 = arr_b s5 \<and> arr_c s6 = arr_c s5"
    using st(2) indexed_kernels_frame(2) [of cf s5 s6] by (auto split: if_splits)
  have 7: "arr_a t = arr_a s6 \<and> arr_b t = arr_b s6 \<and> arr_c t = arr_c s6"
    using st(3) indexed_kernels_frame(3) [of cf s6 t] by (auto split: if_splits)
  from 5 6 7 show "arr_a t = arr_a s4" "arr_b t = arr_b s4" "arr_c t = arr_c s4" by simp_all
qed

text \<open>What the four kernels, one after the other, do to each element.\<close>

lemma mandatory_kernels_elementwise:
  fixes s :: "'a::{plus,times} buffers" and sc :: 'a
  assumes "STREAM_ARRAY_SIZE cf \<le> length (arr_a s)" "STREAM_ARRAY_SIZE cf \<le> length (arr_b s)"
    "STREAM_ARRAY_SIZE cf \<le> length (arr_c s)"
  defines "s1 \<equiv> STREAM_Copy cf s"
  defines "s2 \<equiv> STREAM_Scale cf sc s1"
  defines "s3 \<equiv> STREAM_Add cf s2"
  defines "s4 \<equiv> STREAM_Triad cf sc s3"
  shows "\<forall>j < STREAM_ARRAY_SIZE cf.
           arr_c s1 ! j = arr_a s ! j \<and>
           arr_b s2 ! j = sc * arr_c s1 ! j \<and>
           arr_c s3 ! j = arr_a s2 ! j + arr_b s2 ! j \<and>
           arr_a s4 ! j = arr_b s3 ! j + sc * arr_c s3 ! j"
    and "\<forall>j < STREAM_ARRAY_SIZE cf.
           (arr_a s4 ! j, arr_b s4 ! j, arr_c s4 ! j)
             = spec_recurrence sc (arr_a s ! j, arr_b s ! j, arr_c s ! j)"
    and "length (arr_a s4) = length (arr_a s)" "length (arr_b s4) = length (arr_b s)"
      "length (arr_c s4) = length (arr_c s)"
  using assms(1-3) unfolding s1_def s2_def s3_def s4_def
  by (simp_all add: STREAM_Copy_eq STREAM_Scale_eq STREAM_Add_eq STREAM_Triad_eq
        spec_recurrence_def Let_def)

section \<open>The kernels and their frame\<close>

text \<open>
  C10. Each mandatory kernel changes its output array and nothing else: Copy and Add
  change \<open>c\<close>, Scale changes \<open>b\<close>, Triad changes \<open>a\<close>. No kernel, the indexed
  ones included, changes the index array \<open>i\<close>.
\<close>

theorem kernels_write_only_their_output:
  fixes s :: "'a::{zero,plus,times} buffers"
  shows "(\<exists>c'. STREAM_Copy cf s = s\<lparr>arr_c := c'\<rparr>)
     \<and> (\<exists>b'. STREAM_Scale cf scalar s = s\<lparr>arr_b := b'\<rparr>)
     \<and> (\<exists>c'. STREAM_Add cf s = s\<lparr>arr_c := c'\<rparr>)
     \<and> (\<exists>a'. STREAM_Triad cf scalar s = s\<lparr>arr_a := a'\<rparr>)
     \<and> (\<forall>t. STREAM_Gather cf s = Some t \<longrightarrow> arr_i t = arr_i s)
     \<and> (\<forall>t. STREAM_Scatter cf s = Some t \<longrightarrow> arr_i t = arr_i s)
     \<and> (\<forall>t. STREAM_Indirect_Dot cf s = Some t \<longrightarrow> arr_i t = arr_i s)"
proof -
  have g: "gather_body j v = Some w \<Longrightarrow> arr_i w = arr_i v" for j and v w :: "'a buffers"
    by (auto simp: gather_body_def split: if_splits option.splits)
  have sc: "scatter_body j v = Some w \<Longrightarrow> arr_i w = arr_i v" for j and v w :: "'a buffers"
    by (auto simp: scatter_body_def split: if_splits option.splits)
  have d: "indirect_dot_body j v = Some w \<Longrightarrow> arr_i w = arr_i v" for j and v w :: "'a buffers"
    by (auto simp: indirect_dot_body_def split: if_splits option.splits)
  have "\<exists>c'. STREAM_Copy cf s = s\<lparr>arr_c := c'\<rparr>" by (subst STREAM_Copy_eq) blast
  moreover have "\<exists>b'. STREAM_Scale cf scalar s = s\<lparr>arr_b := b'\<rparr>" by (subst STREAM_Scale_eq) blast
  moreover have "\<exists>c'. STREAM_Add cf s = s\<lparr>arr_c := c'\<rparr>" by (subst STREAM_Add_eq) blast
  moreover have "\<exists>a'. STREAM_Triad cf scalar s = s\<lparr>arr_a := a'\<rparr>" by (subst STREAM_Triad_eq) blast
  moreover have "arr_i t = arr_i s" if "STREAM_Gather cf s = Some t" for t
    by (rule for_loop_opt_preserves [where body = gather_body and f = arr_i,
          OF _ that [unfolded STREAM_Gather_def]]) (erule g)
  moreover have "arr_i t = arr_i s" if "STREAM_Scatter cf s = Some t" for t
    by (rule for_loop_opt_preserves [where body = scatter_body and f = arr_i,
          OF _ that [unfolded STREAM_Scatter_def]]) (erule sc)
  moreover have "arr_i t = arr_i s" if "STREAM_Indirect_Dot cf s = Some t" for t
  proof -
    have "arr_i t = arr_i (s\<lparr>var_x := 0\<rparr>)"
      by (rule for_loop_opt_preserves [where body = indirect_dot_body and f = arr_i,
            OF _ that [unfolded STREAM_Indirect_Dot_def]]) (erule d)
    then show ?thesis by simp
  qed
  ultimately show ?thesis by blast
qed

theorem kernels_write_only_their_output_witness:
  "STREAM_Gather cfg_small bufs_small
     = Some (bufs_small\<lparr>arr_d := [20, 20, 10, 0]\<rparr>)
   \<and> arr_i (bufs_small\<lparr>arr_d := [20, 20, 10, 0]\<rparr>) = arr_i bufs_small
   \<and> STREAM_Scatter cfg_small bufs_small
     = Some (bufs_small\<lparr>arr_e := [1, 1, 0]\<rparr>)
   \<and> STREAM_Indirect_Dot cfg_small bufs_small
     = Some (bufs_small\<lparr>var_x := 6\<rparr>)
   \<and> STREAM_Copy cfg_small bufs_small = bufs_small\<lparr>arr_c := [10, 20, 0]\<rparr>"
proof -
  have g: "STREAM_Gather cfg_small bufs_small = Some (bufs_small\<lparr>arr_d := [20, 20, 10, 0]\<rparr>)"
    by code_simp
  have sc: "STREAM_Scatter cfg_small bufs_small = Some (bufs_small\<lparr>arr_e := [1, 1, 0]\<rparr>)"
    by code_simp
  have d: "STREAM_Indirect_Dot cfg_small bufs_small = Some (bufs_small\<lparr>var_x := 6\<rparr>)"
    by code_simp
  have c: "STREAM_Copy cfg_small bufs_small = bufs_small\<lparr>arr_c := [10, 20, 0]\<rparr>"
    by code_simp
  from kernels_write_only_their_output [of cfg_small bufs_small 3] g
  have "arr_i (bufs_small\<lparr>arr_d := [20, 20, 10, 0]\<rparr>) = arr_i bufs_small" by blast
  with g sc d c show ?thesis by blast
qed

section \<open>The order of the kernels in the trial loop\<close>

text \<open>
  C2. Whenever the trial loop of \<open>main\<close> returns, with \<open>scalar\<close> the element that
  \<open>3.0\<close> denotes, there are the states \<open>st 0, \<dots>, st NTIMES\<close> from the first to the
  last such that trial \<open>k\<close> takes \<open>st k\<close> to \<open>st (k + 1)\<close> as follows: Copy, Scale,
  Add and Triad run in this order with that scalar, each on the result of the one before,
  and for every \<open>j < STREAM_ARRAY_SIZE\<close> they set \<open>c[j] = a[j]\<close>,
  \<open>b[j] = scalar * c[j]\<close>, \<open>c[j] = a[j] + b[j]\<close> and \<open>a[j] = b[j] + scalar * c[j]\<close>;
  then Gather, Scatter and the indirect dot product run where they are enabled. Whatever
  the arrays hold at the start, \<open>a[j]\<close>, \<open>b[j]\<close>, \<open>c[j]\<close> at the end are what
  \<open>NTIMES\<close> steps of the recurrence make of their values at the start.
\<close>

theorem main_loop_runs_kernels_in_order:
  fixes T :: "'a::{zero,plus,times} stream_type" and s0 :: "'a buffers"
  assumes run: "main_loop T cf s0 = Some s"
    and len: "STREAM_ARRAY_SIZE cf \<le> length (arr_a s0)"
      "STREAM_ARRAY_SIZE cf \<le> length (arr_b s0)"
      "STREAM_ARRAY_SIZE cf \<le> length (arr_c s0)"
  shows "let scalar = demote T (Fin 3) in
     \<exists>st. st 0 = s0 \<and> st (NTIMES cf) = s
       \<and> (\<forall>k < NTIMES cf.
            let s1 = STREAM_Copy cf (st k);
                s2 = STREAM_Scale cf scalar s1;
                s3 = STREAM_Add cf s2;
                s4 = STREAM_Triad cf scalar s3
            in (\<forall>j < STREAM_ARRAY_SIZE cf.
                  arr_c s1 ! j = arr_a (st k) ! j \<and>
                  arr_b s2 ! j = scalar * arr_c s1 ! j \<and>
                  arr_c s3 ! j = arr_a s2 ! j + arr_b s2 ! j \<and>
                  arr_a s4 ! j = arr_b s3 ! j + scalar * arr_c s3 ! j)
             \<and> (\<exists>s5 s6.
                  (if ENABLE_GATHER cf then STREAM_Gather cf s4 else Some s4) = Some s5 \<and>
                  (if ENABLE_SCATTER cf then STREAM_Scatter cf s5 else Some s5) = Some s6 \<and>
                  (if ENABLE_INDIRECT_DOT_PRODUCT cf then STREAM_Indirect_Dot cf s6 else Some s6)
                    = Some (st (Suc k))))
       \<and> (\<forall>j < STREAM_ARRAY_SIZE cf.
            (arr_a s ! j, arr_b s ! j, arr_c s ! j)
              = (spec_recurrence scalar ^^ NTIMES cf) (arr_a s0 ! j, arr_b s0 ! j, arr_c s0 ! j))"
proof -
  define sc where "sc = demote T (Fin 3)"
  let ?N = "STREAM_ARRAY_SIZE cf"
  define body where "body = (\<lambda>k::nat. trial cf sc)"
  define st where "st k = the (for_loop_opt 0 k body s0)" for k
  from run have run': "for_loop_opt 0 (NTIMES cf) body s0 = Some s"
    by (simp add: main_loop_eq trials_def body_def sc_def)
  have pre: "for_loop_opt 0 k body s0 = Some (st k)" if "k \<le> NTIMES cf" for k
    using for_loop_opt_prefix [OF run' that] by (auto simp: st_def)
  have st0: "st 0 = s0" by (simp add: st_def)
  have stn: "st (NTIMES cf) = s" using run' by (simp add: st_def)
  have step: "trial cf sc (st k) = Some (st (Suc k))" if "k < NTIMES cf" for k
  proof -
    from that have "Suc k \<le> NTIMES cf" "k \<le> NTIMES cf" by simp_all
    from pre [OF this(1)] pre [OF this(2)] show ?thesis
      by (simp add: for_loop_opt_Suc body_def)
  qed
  have inv: "?N \<le> length (arr_a (st k)) \<and> ?N \<le> length (arr_b (st k))
      \<and> ?N \<le> length (arr_c (st k))
      \<and> (\<forall>j < ?N. (arr_a (st k) ! j, arr_b (st k) ! j, arr_c (st k) ! j)
            = (spec_recurrence sc ^^ k) (arr_a s0 ! j, arr_b s0 ! j, arr_c s0 ! j))"
    if "k \<le> NTIMES cf" for k
    using that
  proof (induction k)
    case 0
    show ?case using len by (simp add: st0)
  next
    case (Suc k)
    then have ih: "?N \<le> length (arr_a (st k))" "?N \<le> length (arr_b (st k))"
      "?N \<le> length (arr_c (st k))"
      "\<forall>j < ?N. (arr_a (st k) ! j, arr_b (st k) ! j, arr_c (st k) ! j)
            = (spec_recurrence sc ^^ k) (arr_a s0 ! j, arr_b s0 ! j, arr_c s0 ! j)"
      by simp_all
    from Suc.prems have "k < NTIMES cf" by simp
    note t = trial_stages(2-4) [OF step [OF this]]
    note m = mandatory_kernels_elementwise(2-5) [OF ih(1-3), of sc]
    show ?case
      unfolding t using m ih(1-4) by simp
  qed
  have stage: "let s1 = STREAM_Copy cf (st k);
                s2 = STREAM_Scale cf sc s1;
                s3 = STREAM_Add cf s2;
                s4 = STREAM_Triad cf sc s3
            in (\<forall>j < ?N.
                  arr_c s1 ! j = arr_a (st k) ! j \<and>
                  arr_b s2 ! j = sc * arr_c s1 ! j \<and>
                  arr_c s3 ! j = arr_a s2 ! j + arr_b s2 ! j \<and>
                  arr_a s4 ! j = arr_b s3 ! j + sc * arr_c s3 ! j)
             \<and> (\<exists>s5 s6.
                  (if ENABLE_GATHER cf then STREAM_Gather cf s4 else Some s4) = Some s5 \<and>
                  (if ENABLE_SCATTER cf then STREAM_Scatter cf s5 else Some s5) = Some s6 \<and>
                  (if ENABLE_INDIRECT_DOT_PRODUCT cf then STREAM_Indirect_Dot cf s6 else Some s6)
                    = Some (st (Suc k)))"
    if "k < NTIMES cf" for k
  proof -
    from that have "k \<le> NTIMES cf" by simp
    from inv [OF this] have l: "?N \<le> length (arr_a (st k))" "?N \<le> length (arr_b (st k))"
      "?N \<le> length (arr_c (st k))" by simp_all
    from mandatory_kernels_elementwise(1) [OF l, of sc] trial_stages(1) [OF step [OF that]]
    show ?thesis unfolding Let_def by blast
  qed
  from inv [OF order_refl] have fin: "\<forall>j < ?N. (arr_a s ! j, arr_b s ! j, arr_c s ! j)
      = (spec_recurrence sc ^^ NTIMES cf) (arr_a s0 ! j, arr_b s0 ! j, arr_c s0 ! j)"
    by (simp add: stn)
  have "\<exists>st. st 0 = s0 \<and> st (NTIMES cf) = s
       \<and> (\<forall>k < NTIMES cf.
            let s1 = STREAM_Copy cf (st k);
                s2 = STREAM_Scale cf sc s1;
                s3 = STREAM_Add cf s2;
                s4 = STREAM_Triad cf sc s3
            in (\<forall>j < ?N.
                  arr_c s1 ! j = arr_a (st k) ! j \<and>
                  arr_b s2 ! j = sc * arr_c s1 ! j \<and>
                  arr_c s3 ! j = arr_a s2 ! j + arr_b s2 ! j \<and>
                  arr_a s4 ! j = arr_b s3 ! j + sc * arr_c s3 ! j)
             \<and> (\<exists>s5 s6.
                  (if ENABLE_GATHER cf then STREAM_Gather cf s4 else Some s4) = Some s5 \<and>
                  (if ENABLE_SCATTER cf then STREAM_Scatter cf s5 else Some s5) = Some s6 \<and>
                  (if ENABLE_INDIRECT_DOT_PRODUCT cf then STREAM_Indirect_Dot cf s6 else Some s6)
                    = Some (st (Suc k))))
       \<and> (\<forall>j < ?N.
            (arr_a s ! j, arr_b s ! j, arr_c s ! j)
              = (spec_recurrence sc ^^ NTIMES cf) (arr_a s0 ! j, arr_b s0 ! j, arr_c s0 ! j))"
    using st0 stn stage fin by blast
  then show ?thesis unfolding Let_def sc_def .
qed

theorem main_loop_runs_kernels_in_order_witness:
  "main_loop double_type cfg_small bufs_double
     = Some \<lparr>arr_a = [Fin 2250, Fin 4500, Fin 0], arr_b = [Fin 450, Fin 900, Fin 0],
             arr_c = [Fin 600, Fin 1200, Fin 0],
             arr_d = [Fin 4500, Fin 4500, Fin 2250, Fin 0], arr_i = [1, 1, 0, 0],
             arr_e = [Fin 2250, Fin 4500, Fin 0], var_x = Fin 9112500\<rparr>
   \<and> STREAM_ARRAY_SIZE cfg_small \<le> length (arr_a bufs_double)
   \<and> STREAM_ARRAY_SIZE cfg_small \<le> length (arr_b bufs_double)
   \<and> STREAM_ARRAY_SIZE cfg_small \<le> length (arr_c bufs_double)
   \<and> NTIMES cfg_small = 2
   \<and> (spec_recurrence (demote double_type (Fin 3)) ^^ NTIMES cfg_small) (Fin 10, Fin 2, Fin 0)
       = (Fin 2250, Fin 450, Fin 600)
   \<and> (spec_recurrence (demote double_type (Fin 3)) ^^ NTIMES cfg_small) (Fin 20, Fin 2, Fin 0)
       = (Fin 4500, Fin 900, Fin 1200)"
proof -
  let ?s = "\<lparr>arr_a = [Fin 2250, Fin 4500, Fin 0], arr_b = [Fin 450, Fin 900, Fin 0],
             arr_c = [Fin 600, Fin 1200, Fin 0],
             arr_d = [Fin 4500, Fin 4500, Fin 2250, Fin 0], arr_i = [1, 1, 0, 0],
             arr_e = [Fin 2250, Fin 4500, Fin 0], var_x = Fin 9112500\<rparr>"
  have run: "main_loop double_type cfg_small bufs_double = Some ?s"
    by code_simp
  have len: "STREAM_ARRAY_SIZE cfg_small \<le> length (arr_a bufs_double)"
    "STREAM_ARRAY_SIZE cfg_small \<le> length (arr_b bufs_double)"
    "STREAM_ARRAY_SIZE cfg_small \<le> length (arr_c bufs_double)"
    by (simp_all add: cfg_small_def bufs_double_def)
  have n: "NTIMES cfg_small = 2" by (simp add: NTIMES_def cfg_small_def)
  have N: "STREAM_ARRAY_SIZE cfg_small = 2" by (simp add: cfg_small_def)
  from main_loop_runs_kernels_in_order [OF run len, unfolded Let_def]
  have fin: "\<forall>j < STREAM_ARRAY_SIZE cfg_small.
      (arr_a ?s ! j, arr_b ?s ! j, arr_c ?s ! j)
        = (spec_recurrence (demote double_type (Fin 3)) ^^ NTIMES cfg_small)
            (arr_a bufs_double ! j, arr_b bufs_double ! j, arr_c bufs_double ! j)"
    by blast
  have j: "0 < STREAM_ARRAY_SIZE cfg_small" "1 < STREAM_ARRAY_SIZE cfg_small"
    by (simp_all add: N)
  from fin j(1) have "(arr_a ?s ! 0, arr_b ?s ! 0, arr_c ?s ! 0)
        = (spec_recurrence (demote double_type (Fin 3)) ^^ NTIMES cfg_small)
            (arr_a bufs_double ! 0, arr_b bufs_double ! 0, arr_c bufs_double ! 0)"
    by blast
  then have 0: "(spec_recurrence (demote double_type (Fin 3)) ^^ NTIMES cfg_small)
      (Fin 10, Fin 2, Fin 0) = (Fin 2250, Fin 450, Fin 600)"
    by (simp add: bufs_double_def)
  from fin j(2) have "(arr_a ?s ! 1, arr_b ?s ! 1, arr_c ?s ! 1)
        = (spec_recurrence (demote double_type (Fin 3)) ^^ NTIMES cfg_small)
            (arr_a bufs_double ! 1, arr_b bufs_double ! 1, arr_c bufs_double ! 1)"
    by blast
  then have 1: "(spec_recurrence (demote double_type (Fin 3)) ^^ NTIMES cfg_small)
      (Fin 20, Fin 2, Fin 0) = (Fin 4500, Fin 900, Fin 1200)"
    by (simp add: bufs_double_def)
  from run len n 0 1 show ?thesis by simp
qed

section \<open>Gather followed by Scatter\<close>

text \<open>
  C7. Gather and then Scatter, with the same index array whose first
  \<open>STREAM_INDEX_ARRAY_SIZE\<close> entries are offsets into \<open>a\<close> and \<open>e\<close>, both return, and
  for every \<open>j < STREAM_INDEX_ARRAY_SIZE\<close> the element \<open>e[i[j]]\<close> equals \<open>d[j]\<close>,
  which equals \<open>a[i[j]]\<close> as it was before the Gather. Nothing is assumed of the entries
  beyond their range: they may repeat.
\<close>

theorem gather_scatter_round_trip:
  fixes s :: "'a buffers"
  assumes "STREAM_INDEX_ARRAY_SIZE cf \<le> length (arr_i s)"
    and "STREAM_INDEX_ARRAY_SIZE cf \<le> length (arr_d s)"
    and "\<forall>j < STREAM_INDEX_ARRAY_SIZE cf.
           0 \<le> arr_i s ! j \<and> nat (arr_i s ! j) < length (arr_a s)
                            \<and> nat (arr_i s ! j) < length (arr_e s)"
  shows "\<exists>sg ss. STREAM_Gather cf s = Some sg \<and> STREAM_Scatter cf sg = Some ss
     \<and> arr_i ss = arr_i s \<and> arr_a ss = arr_a s
     \<and> (\<forall>j < STREAM_INDEX_ARRAY_SIZE cf.
           arr_e ss ! nat (arr_i ss ! j) = arr_d ss ! j
         \<and> arr_d ss ! j = arr_a s ! nat (arr_i s ! j))"
proof -
  let ?M = "STREAM_INDEX_ARRAY_SIZE cf"
  let ?f = "\<lambda>j. nat (arr_i s ! j)"
  define sg where "sg = s\<lparr>arr_d := map (\<lambda>j. if j < ?M then arr_a s ! ?f j else arr_d s ! j)
                                      [0..<length (arr_d s)]\<rparr>"
  define ss where "ss = sg\<lparr>arr_e := fold (\<lambda>j e. e[nat (arr_i sg ! j) := arr_d sg ! j])
                                        [0..<?M] (arr_e sg)\<rparr>"
  have ra: "\<forall>j<?M. 0 \<le> arr_i s ! j \<and> ?f j < length (arr_a s)" using assms(3) by simp
  have g: "STREAM_Gather cf s = Some sg"
    unfolding sg_def by (rule STREAM_Gather_eq [OF assms(1,2) ra])
  have l: "?M \<le> length (arr_i sg)" "?M \<le> length (arr_d sg)"
    using assms(1,2) by (simp_all add: sg_def)
  have re: "\<forall>j<?M. 0 \<le> arr_i sg ! j \<and> nat (arr_i sg ! j) < length (arr_e sg)"
    using assms(3) by (simp add: sg_def)
  have sc: "STREAM_Scatter cf sg = Some ss"
    unfolding ss_def by (rule STREAM_Scatter_eq [OF l re])
  have d: "arr_d sg ! j = arr_a s ! ?f j" if "j < ?M" for j
    using that assms(2) by (simp add: sg_def)
  have cons: "\<forall>j<?M. \<forall>k<?M. ?f j = ?f k \<longrightarrow> arr_d sg ! j = arr_d sg ! k"
    by (simp add: d)
  have e: "arr_e ss ! ?f j = arr_d sg ! j" if "j < ?M" for j
  proof -
    from assms(3) that have "?f j < length (arr_e s)" by simp
    from scatter_fold_hit [of ?M ?f "\<lambda>j. arr_d sg ! j", OF cons that this]
    show ?thesis by (simp add: ss_def sg_def)
  qed
  have "arr_i ss = arr_i s" "arr_a ss = arr_a s" "arr_d ss = arr_d sg"
    by (simp_all add: ss_def sg_def)
  with g sc d e show ?thesis by simp
qed

theorem gather_scatter_round_trip_witness:
  "STREAM_Gather cfg_small bufs_small = Some (bufs_small\<lparr>arr_d := [20, 20, 10, 0]\<rparr>)
   \<and> STREAM_Scatter cfg_small (bufs_small\<lparr>arr_d := [20, 20, 10, 0]\<rparr>)
       = Some (bufs_small\<lparr>arr_d := [20, 20, 10, 0], arr_e := [10, 20, 0]\<rparr>)
   \<and> arr_i bufs_small ! 0 = arr_i bufs_small ! 1"
proof -
  have h: "STREAM_INDEX_ARRAY_SIZE cfg_small \<le> length (arr_i bufs_small)"
    "STREAM_INDEX_ARRAY_SIZE cfg_small \<le> length (arr_d bufs_small)"
    "\<forall>j < STREAM_INDEX_ARRAY_SIZE cfg_small.
           0 \<le> arr_i bufs_small ! j \<and> nat (arr_i bufs_small ! j) < length (arr_a bufs_small)
                            \<and> nat (arr_i bufs_small ! j) < length (arr_e bufs_small)"
    by (simp_all add: cfg_small_def bufs_small_def less_Suc_eq numeral_3_eq_3)
  from gather_scatter_round_trip [OF h]
  obtain sg ss where r: "STREAM_Gather cfg_small bufs_small = Some sg"
    "STREAM_Scatter cfg_small sg = Some ss" by blast
  have g: "STREAM_Gather cfg_small bufs_small = Some (bufs_small\<lparr>arr_d := [20, 20, 10, 0]\<rparr>)"
    by code_simp
  with r have "STREAM_Scatter cfg_small (bufs_small\<lparr>arr_d := [20, 20, 10, 0]\<rparr>) = Some ss"
    by simp
  moreover have "STREAM_Scatter cfg_small (bufs_small\<lparr>arr_d := [20, 20, 10, 0]\<rparr>)
       = Some (bufs_small\<lparr>arr_d := [20, 20, 10, 0], arr_e := [10, 20, 0]\<rparr>)"
    by code_simp
  moreover have "arr_i bufs_small ! 0 = arr_i bufs_small ! 1"
    by (simp add: bufs_small_def)
  ultimately show ?thesis using g by simp
qed

section \<open>The index array\<close>

lemma main_setup_index:
  fixes T :: "'a::zero stream_type"
  assumes "main_setup T cf rnd = Some s" "indexed_kernels cf"
  shows "\<exists>u. setup_index cf rnd (init_d T cf (init_abc T cf (static_buffers cf))) = Some u
     \<and> arr_i s = arr_i u"
  using assms
  by (auto simp: main_setup_def Let_def init_e_eq split: option.splits if_splits)

lemma main_buffers_Some:
  fixes T :: "'a::{zero,plus,times} stream_type"
  assumes N: "indexed_kernels cf \<longrightarrow> index_fits cf"
  shows "\<exists>s t. main_setup T cf rnd = Some s \<and> main_buffers T cf rnd = Some t
     \<and> arr_i t = arr_i s \<and> well_sized cf s
     \<and> (indexed_kernels cf \<longrightarrow> index_in_range cf s)"
proof -
  let ?sc = "demote T (Fin 3)"
  from main_setup_props [OF N, of T rnd]
  obtain s where s: "main_setup T cf rnd = Some s" "well_sized cf s"
    "indexed_kernels cf \<longrightarrow> index_in_range cf s"
    "uniform (STREAM_ARRAY_SIZE cf) (arr_a s) (demote T (Fin 1))"
    "d_uniform cf s (demote T (Fin 1))" by blast
  let ?w = "warm_up T cf s"
  have w: "well_sized cf ?w" "indexed_kernels cf \<longrightarrow> index_in_range cf ?w"
    "d_uniform cf ?w (demote T (Fin 1))" "arr_i ?w = arr_i s"
    using s(2,3,5) by (simp_all add: warm_up_eq well_sized_def index_in_range_def d_uniform_def)
  obtain av where av: "uniform (STREAM_ARRAY_SIZE cf) (arr_a ?w) av"
    using s(2,4) by (auto simp: warm_up_eq uniform_def well_sized_def)
  have "\<exists>t. trials cf ?sc n ?w = Some t \<and> well_sized cf t \<and> arr_i t = arr_i ?w
      \<and> (\<exists>av. uniform (STREAM_ARRAY_SIZE cf) (arr_a t) av) \<and> (\<exists>dv. d_uniform cf t dv)" for n
  proof (induction n)
    case 0
    show ?case using w av by (auto simp: trials_def)
  next
    case (Suc n)
    then obtain t av dv where t: "trials cf ?sc n ?w = Some t" "well_sized cf t"
      "arr_i t = arr_i ?w" "uniform (STREAM_ARRAY_SIZE cf) (arr_a t) av" "d_uniform cf t dv"
      by blast
    have it: "indexed_kernels cf \<longrightarrow> index_in_range cf t"
      using w(2) t(3) by (simp add: index_in_range_def)
    from trial_step [OF t(2) it t(4,5), of ?sc] t(1,3) show ?case
      by (auto simp: trials_Suc)
  qed
  then obtain t where "trials cf ?sc (NTIMES cf) ?w = Some t" "arr_i t = arr_i ?w" by blast
  then have "main_buffers T cf rnd = Some t" "arr_i t = arr_i s"
    using s(1) w(4) by (simp_all add: main_buffers_def main_loop_eq)
  with s show ?thesis by blast
qed

text \<open>
  C9, with the sizes that the claim leaves out. When \<open>STREAM_ARRAY_SIZE\<close> is positive
  and at most \<open>2\<^sup>b\<^sup>i\<^sup>t\<^sup>s\<^sup>-\<^sup>1\<close> for the bits of \<open>INDEX_TYPE\<close>, and
  \<open>STREAM_INDEX_ARRAY_SIZE\<close> is at most \<open>2\<^sup>3\<^sup>1\<close> where the index array is permuted,
  the setup of \<open>main\<close> returns, whatever \<open>rand\<close> returns and whatever the element
  type, and each of the first \<open>STREAM_INDEX_ARRAY_SIZE\<close> entries of the index array is
  at least 0 and below \<open>STREAM_ARRAY_SIZE\<close>. The entries are those of
  \<open>j mod STREAM_ARRAY_SIZE\<close> (and the zeros of the padding), in some order: the shuffle
  swaps. The trials then run without an access outside an array and leave the index array
  as the setup made it.
\<close>

theorem index_entries_in_range:
  fixes T :: "'a::{zero,plus,times} stream_type"
  assumes "index_fits cf" and "indexed_kernels cf"
  shows "\<exists>s t. main_setup T cf rnd = Some s
     \<and> (\<forall>j < STREAM_INDEX_ARRAY_SIZE cf.
           0 \<le> arr_i s ! j \<and> arr_i s ! j < int (STREAM_ARRAY_SIZE cf))
     \<and> mset (arr_i s) =
         mset (map (\<lambda>j. int j mod int (STREAM_ARRAY_SIZE cf)) [0..<STREAM_INDEX_ARRAY_SIZE cf])
         + replicate_mset (OFFSET cf) 0
     \<and> main_buffers T cf rnd = Some t \<and> arr_i t = arr_i s"
proof -
  let ?M = "STREAM_INDEX_ARRAY_SIZE cf" and ?N = "STREAM_ARRAY_SIZE cf"
  from assms have N: "indexed_kernels cf \<longrightarrow> index_fits cf" by simp
  from main_buffers_Some [OF N, of T rnd]
  obtain s t where st: "main_setup T cf rnd = Some s" "main_buffers T cf rnd = Some t"
    "arr_i t = arr_i s" "index_in_range cf s"
    using assms(2) by blast
  let ?s0 = "init_d T cf (init_abc T cf (static_buffers cf))"
  from main_setup_index [OF st(1) assms(2)]
  obtain u where u: "setup_index cf rnd ?s0 = Some u" "arr_i s = arr_i u" by blast
  have i0: "arr_i ?s0 = replicate (?M + OFFSET cf) 0"
    using assms(2) by (simp add: init_d_eq init_abc_eq static_buffers_def)
  then have len: "?M \<le> length (arr_i ?s0)" by simp
  have "map (\<lambda>j. if j < ?M then int j mod int ?N else arr_i ?s0 ! j) [0..<length (arr_i ?s0)]
      = map (\<lambda>j. int j mod int ?N) [0..<?M] @ replicate (OFFSET cf) 0"
    by (rule nth_equalityI) (auto simp: i0 nth_append)
  moreover from setup_index_props [OF assms(1) len, of rnd] u(1)
  have "mset (arr_i u) =
      mset (map (\<lambda>j. if j < ?M then int j mod int ?N else arr_i ?s0 ! j) [0..<length (arr_i ?s0)])"
    by auto
  ultimately
  have "mset (arr_i s) = mset (map (\<lambda>j. int j mod int ?N) [0..<?M]) + replicate_mset (OFFSET cf) 0"
    by (simp add: u(2))
  with st show ?thesis by (auto simp: index_in_range_def)
qed

theorem index_entries_in_range_witness:
  "index_fits cfg_small \<and> indexed_kernels cfg_small
   \<and> arr_i (the (main_setup double_type cfg_small rnd_small)) = [1, 0, 0, 0]
   \<and> arr_i (the (main_buffers double_type cfg_small rnd_small)) = [1, 0, 0, 0]"
proof -
  have h: "index_fits cfg_small" "indexed_kernels cfg_small"
    by (simp_all add: cfg_small_def indexed_kernels_def index_fits_def)
  from index_entries_in_range [OF h, of double_type rnd_small]
  obtain s t where st: "main_setup double_type cfg_small rnd_small = Some s"
    "main_buffers double_type cfg_small rnd_small = Some t" "arr_i t = arr_i s" by blast
  have "arr_i (the (main_setup double_type cfg_small rnd_small)) = [1, 0, 0, 0]"
    by code_simp
  with st have "arr_i s = [1, 0, 0, 0]" "arr_i t = [1, 0, 0, 0]" by simp_all
  with st h show ?thesis by simp
qed

lemma Gather_Some_subscript:
  assumes g: "STREAM_Gather cf s = Some t" and j: "j < STREAM_INDEX_ARRAY_SIZE cf"
  shows "subscript (arr_i s ! j) (length (arr_a s)) \<noteq> None"
proof -
  from j have "Suc j \<le> STREAM_INDEX_ARRAY_SIZE cf" by simp
  from for_loop_opt_prefix [OF g [unfolded STREAM_Gather_def] this]
  obtain u where "for_loop_opt 0 (Suc j) gather_body s = Some u" by blast
  then obtain v where v: "for_loop_opt 0 j gather_body s = Some v" "gather_body j v = Some u"
    by (auto simp: for_loop_opt_Suc split: option.splits)
  have fr: "gather_body j v = Some w \<Longrightarrow> (arr_i w, arr_a w) = (arr_i v, arr_a v)"
    for j and v w :: "'a buffers"
    by (auto simp: gather_body_def split: if_splits option.splits)
  have "(arr_i v, arr_a v) = (arr_i s, arr_a s)"
    by (rule for_loop_opt_preserves [where body = gather_body
          and f = "\<lambda>s. (arr_i s, arr_a s)", OF _ v(1)]) (erule fr)
  with v(2) show ?thesis
    by (auto simp: gather_body_def split: if_splits option.splits)
qed

text \<open>
  C9 as the claim has it, for every size, does not hold. With \<open>INDEX_TYPE\<close> a
  \<open>signed char\<close> and 129 elements, \<open>i[128] = 128 % 129\<close> is stored as \<open>-128\<close>,
  which is not in \<open>[0, 129)\<close>, and the first Gather reads \<open>a[-128]\<close>: the trials have
  no defined result.
\<close>

theorem narrow_index_type_counterexample:
  "INDEX_TYPE_bits cfg_char_index = 8 \<and> STREAM_ARRAY_SIZE cfg_char_index = 129
   \<and> PERMUTE_INDEX_ARRAY cfg_char_index = False
   \<and> map_option (\<lambda>s. arr_i s ! 128) (main_setup double_type cfg_char_index rnd_small)
        = Some (- 128)
   \<and> main_buffers double_type cfg_char_index rnd_small = None"
proof -
  let ?cf = cfg_char_index and ?T = double_type
  have c: "STREAM_ARRAY_SIZE ?cf = 129" "STREAM_INDEX_ARRAY_SIZE ?cf = 129" "OFFSET ?cf = 0"
    "INDEX_TYPE_bits ?cf = 8" "ENABLE_GATHER ?cf" "\<not> ENABLE_SCATTER ?cf"
    "\<not> PERMUTE_INDEX_ARRAY ?cf" "indexed_kernels ?cf" "NTIMES ?cf = 2"
    by (simp_all add: cfg_char_index_def indexed_kernels_def NTIMES_def)
  let ?s0 = "init_d ?T ?cf (init_abc ?T ?cf (static_buffers ?cf))"
  have l0: "length (arr_i ?s0) = 129" "length (arr_a ?s0) = 129"
    "length (arr_b ?s0) = 129" "length (arr_c ?s0) = 129"
    by (simp_all add: init_d_eq init_abc_eq static_buffers_def c)
  have N: "0 < STREAM_ARRAY_SIZE ?cf" by (simp add: c)
  let ?i = "map (\<lambda>j. if j < STREAM_INDEX_ARRAY_SIZE ?cf
                      then wrap_signed (INDEX_TYPE_bits ?cf) (int j mod int (STREAM_ARRAY_SIZE ?cf))
                      else arr_i ?s0 ! j) [0..<length (arr_i ?s0)]"
  have w: "wrap_signed 8 128 = - 128"
    by (simp add: wrap_signed_def signed_take_bit_eq_take_bit_shift)
  have i128: "?i ! 128 = - 128"
    unfolding l0 c by (subst nth_map) (simp_all add: w)
  have ms: "main_setup ?T ?cf rnd_small = Some (?s0\<lparr>arr_i := ?i\<rparr>)"
    unfolding main_setup_def Let_def setup_index_def init_i_eq [OF N]
    by (simp add: c)
  let ?s = "?s0\<lparr>arr_i := ?i\<rparr>"
  let ?w = "warm_up ?T ?cf ?s"
  let ?sc = "demote ?T (Fin 3)"
  let ?s4 = "STREAM_Triad ?cf ?sc (STREAM_Add ?cf (STREAM_Scale ?cf ?sc (STREAM_Copy ?cf ?w)))"
  have i4: "arr_i ?s4 = ?i"
    by (simp add: STREAM_Copy_eq STREAM_Scale_eq STREAM_Add_eq STREAM_Triad_eq warm_up_eq)
  have "subscript (arr_i ?s4 ! 128) (length (arr_a ?s4)) = None"
    unfolding i4 i128 by (simp add: subscript_def)
  with Gather_Some_subscript [of ?cf ?s4 _ 128] have g: "STREAM_Gather ?cf ?s4 = None"
    by (cases "STREAM_Gather ?cf ?s4") (simp_all add: c)
  have tr: "trial ?cf ?sc ?w = None"
    unfolding trial_def Let_def g using c(5) by simp
  have t0: "trials ?cf ?sc 0 ?w = Some ?w" by (simp add: trials_def)
  have t1: "trials ?cf ?sc (Suc 0) ?w = None"
    by (subst trials_Suc) (simp only: t0 option.case tr)
  have "trials ?cf ?sc (Suc (Suc 0)) ?w = None"
    by (subst trials_Suc) (simp only: t1 option.case)
  then have "main_buffers ?T ?cf rnd_small = None"
    by (simp add: main_buffers_def ms main_loop_eq c numeral_2_eq_2)
  with ms i128 c show ?thesis by simp
qed

section \<open>The trial loop and the expected values\<close>

lemma expected_loop_spec:
  "(aj (for_loop 0 k (\<lambda>k. expected_step T cf sc) r0),
    bj (for_loop 0 k (\<lambda>k. expected_step T cf sc) r0),
    cj (for_loop 0 k (\<lambda>k. expected_step T cf sc) r0))
       = (spec_recurrence sc ^^ k) (aj r0, bj r0, cj r0)"
proof (induction k)
  case 0
  show ?case by simp
next
  case (Suc k)
  let ?r = "for_loop 0 k (\<lambda>k. expected_step T cf sc) r0"
  have "(spec_recurrence sc ^^ Suc k) (aj r0, bj r0, cj r0) = spec_recurrence sc (aj ?r, bj ?r, cj ?r)"
    by (simp add: Suc [symmetric])
  also have "\<dots> = (aj (expected_step T cf sc ?r), bj (expected_step T cf sc ?r),
                      cj (expected_step T cf sc ?r))"
    by (simp add: spec_recurrence_def expected_step_fields Let_def)
  finally show ?case by (simp only: for_loop_Suc [OF le0])
qed

lemma main_buffers_expected:
  fixes T :: "'a::{zero,plus,times} stream_type"
  assumes N: "indexed_kernels cf \<longrightarrow> index_fits cf"
  shows "\<exists>s. main_buffers T cf rnd = Some s
     \<and> uniform (STREAM_ARRAY_SIZE cf) (arr_a s) (aj (expected_values T cf))
     \<and> uniform (STREAM_ARRAY_SIZE cf) (arr_b s) (bj (expected_values T cf))
     \<and> uniform (STREAM_ARRAY_SIZE cf) (arr_c s) (cj (expected_values T cf))
     \<and> (ENABLE_GATHER cf \<longrightarrow>
          uniform (STREAM_INDEX_ARRAY_SIZE cf) (arr_d s) (aj (expected_values T cf))
          \<and> dj (expected_values T cf) = Some (aj (expected_values T cf)))
     \<and> (ENABLE_SCATTER cf \<longrightarrow>
          (\<forall>j<STREAM_INDEX_ARRAY_SIZE cf. arr_e s ! nat (arr_i s ! j) =
             (if ENABLE_GATHER cf then aj (expected_values T cf) else demote T (Fin 1)))
          \<and> ej (expected_values T cf) =
             Some (if ENABLE_GATHER cf then aj (expected_values T cf) else demote T (Fin 0)))"
proof -
  let ?sc = "demote T (Fin 3)"
  from main_setup_props [OF N, of T rnd]
  obtain s where s: "main_setup T cf rnd = Some s" "well_sized cf s"
    "indexed_kernels cf \<longrightarrow> index_in_range cf s"
    "uniform (STREAM_ARRAY_SIZE cf) (arr_a s) (demote T (Fin 1))"
    "uniform (STREAM_ARRAY_SIZE cf) (arr_b s) (demote T (Fin 2))"
    "uniform (STREAM_ARRAY_SIZE cf) (arr_c s) (demote T (Fin 0))"
    "d_uniform cf s (demote T (Fin 1))" by blast
  let ?w = "warm_up T cf s"
  define r0 :: "'a expected" where
    "r0 = \<lparr>aj = demote T (Fin 2 * promote T (demote T (Fin 1))), bj = demote T (Fin 2),
           cj = demote T (Fin 0), dj = None, ej = None\<rparr>"
  have w: "well_sized cf ?w" "indexed_kernels cf \<longrightarrow> index_in_range cf ?w"
    "uniform (STREAM_ARRAY_SIZE cf) (arr_a ?w) (aj r0)"
    "uniform (STREAM_ARRAY_SIZE cf) (arr_b ?w) (bj r0)"
    "uniform (STREAM_ARRAY_SIZE cf) (arr_c ?w) (cj r0)"
    "d_uniform cf ?w (demote T (Fin 1))"
    using s(2-7)
    by (simp_all add: warm_up_eq well_sized_def index_in_range_def d_uniform_def uniform_def r0_def)
  have ex: "expected_values T cf = for_loop 0 (NTIMES cf) (\<lambda>k. expected_step T cf ?sc) r0"
    by (simp add: expected_values_def r0_def)
  have pos: "0 < NTIMES cf" by (simp add: NTIMES_def split: option.splits)
  have G: "indexed_kernels cf" if "ENABLE_GATHER cf" using that by (simp add: indexed_kernels_def)
  from trials_track [OF w, where sc = ?sc and T = T and k = "NTIMES cf", folded ex] pos
  obtain t where t: "trials cf ?sc (NTIMES cf) ?w = Some t"
    "uniform (STREAM_ARRAY_SIZE cf) (arr_a t) (aj (expected_values T cf))"
    "uniform (STREAM_ARRAY_SIZE cf) (arr_b t) (bj (expected_values T cf))"
    "uniform (STREAM_ARRAY_SIZE cf) (arr_c t) (cj (expected_values T cf))"
    "d_uniform cf t (if ENABLE_GATHER cf then aj (expected_values T cf) else demote T (Fin 1))"
    "ENABLE_SCATTER cf \<longrightarrow>
          (\<forall>j<STREAM_INDEX_ARRAY_SIZE cf. arr_e t ! nat (arr_i t ! j) =
             (if ENABLE_GATHER cf then aj (expected_values T cf) else demote T (Fin 1)))"
    "ENABLE_GATHER cf \<longrightarrow> dj (expected_values T cf) = Some (aj (expected_values T cf))"
    "ENABLE_SCATTER cf \<longrightarrow>
       ej (expected_values T cf) =
         Some (if ENABLE_GATHER cf then aj (expected_values T cf) else demote T (Fin 0))"
    by auto
  have "main_buffers T cf rnd = Some t"
    using s(1) t(1) by (simp add: main_buffers_def main_loop_eq)
  moreover have "ENABLE_GATHER cf \<longrightarrow>
      uniform (STREAM_INDEX_ARRAY_SIZE cf) (arr_d t) (aj (expected_values T cf))"
    using t(5) G by (auto simp: d_uniform_def)
  ultimately show ?thesis using t(2-4,6-8) by simp
qed

text \<open>
  C1. For every element type with its own arithmetic, every configuration whose sizes fit
  the integer types (where an indexed kernel is enabled) and hence for every trial count,
  the setup, the warm-up and the trials of \<open>main\<close> run without an access outside an
  array, and after them every element \<open>a[j]\<close>, \<open>b[j]\<close>, \<open>c[j]\<close> with
  \<open>j < STREAM_ARRAY_SIZE\<close> is the value that \<open>NTIMES\<close> steps of the recurrence of the
  specification give from the seeds, computed in the arithmetic of the element type (each
  product and each sum rounded as that type rounds it); the values \<open>aj\<close>, \<open>bj\<close>,
  \<open>cj\<close> that \<open>checkSTREAMresults\<close> computes are the same values. For \<open>double\<close>
  the seeds are \<open>(2, 2, 0)\<close> and the scalar is 3.
\<close>

theorem trial_loop_refines_scalar_recurrence:
  fixes T :: "'a::{zero,plus,times} stream_type"
  assumes "indexed_kernels cf \<longrightarrow> index_fits cf"
  shows "\<exists>s. main_buffers T cf rnd = Some s
     \<and> (\<forall>j < STREAM_ARRAY_SIZE cf.
          (arr_a s ! j, arr_b s ! j, arr_c s ! j)
            = (spec_recurrence (demote T (Fin 3)) ^^ NTIMES cf) (spec_seed T))
     \<and> (aj (expected_values T cf), bj (expected_values T cf), cj (expected_values T cf))
          = (spec_recurrence (demote T (Fin 3)) ^^ NTIMES cf) (spec_seed T)"
proof -
  have "(aj (expected_values T cf), bj (expected_values T cf), cj (expected_values T cf))
          = (spec_recurrence (demote T (Fin 3)) ^^ NTIMES cf) (spec_seed T)"
    unfolding expected_values_def Let_def spec_seed_def by (subst expected_loop_spec) simp
  with main_buffers_expected [OF assms, of T rnd] show ?thesis
    by (auto simp: uniform_def)
qed

theorem trial_loop_refines_scalar_recurrence_witness:
  "indexed_kernels cfg_small \<and> index_fits cfg_small
   \<and> NTIMES cfg_small = 2
   \<and> spec_seed double_type = (Fin 2, Fin 2, Fin 0) \<and> demote double_type (Fin 3) = Fin 3
   \<and> (spec_recurrence (Fin 3) ^^ 2) (Fin 2, Fin 2, Fin 0) = (Fin 450, Fin 90, Fin 120)
   \<and> arr_a (the (main_buffers double_type cfg_small rnd_small)) = [Fin 450, Fin 450, Fin 0]
   \<and> arr_b (the (main_buffers double_type cfg_small rnd_small)) = [Fin 90, Fin 90, Fin 0]
   \<and> arr_c (the (main_buffers double_type cfg_small rnd_small)) = [Fin 120, Fin 120, Fin 0]
   \<and> aj (expected_values double_type cfg_small) = Fin 450
   \<and> bj (expected_values double_type cfg_small) = Fin 90
   \<and> cj (expected_values double_type cfg_small) = Fin 120"
proof -
  have f: "indexed_kernels cfg_small" "index_fits cfg_small"
    by (simp_all add: cfg_small_def indexed_kernels_def index_fits_def)
  then have h: "indexed_kernels cfg_small \<longrightarrow> index_fits cfg_small" by simp
  have n: "NTIMES cfg_small = 2" by (simp add: NTIMES_def cfg_small_def)
  have sd: "spec_seed double_type = (Fin 2, Fin 2, Fin 0)" "demote double_type (Fin 3) = Fin 3"
    by code_simp+
  have r: "(spec_recurrence (Fin 3) ^^ 2) (Fin 2, Fin 2, Fin 0) = (Fin 450, Fin 90, Fin 120)"
    by code_simp
  have b: "arr_a (the (main_buffers double_type cfg_small rnd_small)) = [Fin 450, Fin 450, Fin 0]"
    "arr_b (the (main_buffers double_type cfg_small rnd_small)) = [Fin 90, Fin 90, Fin 0]"
    "arr_c (the (main_buffers double_type cfg_small rnd_small)) = [Fin 120, Fin 120, Fin 0]"
    by code_simp+
  from trial_loop_refines_scalar_recurrence [OF h, of double_type rnd_small]
  have "(aj (expected_values double_type cfg_small), bj (expected_values double_type cfg_small),
         cj (expected_values double_type cfg_small)) = (Fin 450, Fin 90, Fin 120)"
    unfolding n sd r by blast
  with f n sd r b show ?thesis by simp
qed

text \<open>
  In \<open>double\<close> the recurrence is not the one over the real numbers: after 14 steps the
  exact \<open>a\<close> is \<open>2 \<times> 15\<^sup>1\<^sup>4 = 58385852050781250\<close>, which is not a binary64 number,
  and the arrays and \<open>aj\<close> hold the nearest one.
\<close>

lemma recurrence_in_double_rounds:
  "fst ((spec_recurrence (Fin 3) ^^ 14) (Fin 2, Fin 2, Fin 0)) = Fin 58385852050781248"
  by code_simp

section \<open>The expected values of \<open>d\<close> and \<open>e\<close>\<close>

text \<open>
  C3. With Scatter enabled and Gather disabled, \<open>checkSTREAMresults\<close> expects
  \<open>ej = 0.0\<close>, while every trial scatters the elements of \<open>d\<close>, which are the
  \<open>1.0\<close> of the setup, into \<open>e\<close>: after the two trials of this configuration, with
  \<open>double\<close> elements, \<open>e[i[j]]\<close> is 1 for \<open>j = 0, 1\<close>, and the validation of
  \<open>e\<close> fails. (\<open>main_buffers_expected\<close> above is the general statement: the expected
  values of \<open>a\<close>, \<open>b\<close>, \<open>c\<close> are those of the arrays in every configuration
  whose sizes fit, and so are those of \<open>d\<close> and of the scattered elements of \<open>e\<close>
  when Gather is enabled.)
\<close>

theorem scatter_only_expected_ej_differs:
  "map_option arr_e (main_buffers double_type cfg_scatter_only rnd_small) = Some [Fin 1, Fin 1]
   \<and> map_option arr_i (main_buffers double_type cfg_scatter_only rnd_small) = Some [0, 1]
   \<and> ej (expected_values double_type cfg_scatter_only) = Some (Fin 0)
   \<and> map_option failed_e
        (case main_buffers double_type cfg_scatter_only rnd_small of
           None \<Rightarrow> None | Some s \<Rightarrow> checkSTREAMresults double_type cfg_scatter_only s) = Some True"
  by code_simp

section \<open>What the summary reports\<close>

lemma NTIMES_ge_2: "2 \<le> NTIMES cf"
  by (auto simp: NTIMES_def split: option.splits)

lemma MIN_macro_min: "MIN_macro x y = min x (y::'a::linorder)"
  by (auto simp: MIN_macro_def min_def)

lemma MAX_macro_max: "MAX_macro x y = max x (y::'a::linorder)"
  by (auto simp: MAX_macro_def max_def)

lemma accumulate_inner:
  "for_loop 0 n (accumulate_body tm k) st =
     st\<lparr>avgtime := map (\<lambda>j. if j < n then avgtime st ! j + tm j k else avgtime st ! j)
                      [0..<length (avgtime st)],
        mintime := map (\<lambda>j. if j < n then MIN_macro (mintime st ! j) (tm j k) else mintime st ! j)
                      [0..<length (mintime st)],
        maxtime := map (\<lambda>j. if j < n then MAX_macro (maxtime st ! j) (tm j k) else maxtime st ! j)
                      [0..<length (maxtime st)]\<rparr>"
proof (induction n)
  case 0
  show ?case by (simp add: map_nth)
next
  case (Suc n)
  show ?case
  proof -
    let ?a = "\<lambda>j. avgtime st ! j + tm j k" and ?mi = "\<lambda>j. MIN_macro (mintime st ! j) (tm j k)"
      and ?ma = "\<lambda>j. MAX_macro (maxtime st ! j) (tm j k)"
    have a: "(map (\<lambda>j. if j < n then ?a j else avgtime st ! j) [0..<length (avgtime st)])
        [n := map (\<lambda>j. if j < n then ?a j else avgtime st ! j) [0..<length (avgtime st)] ! n + tm n k]
      = map (\<lambda>j. if j < Suc n then ?a j else avgtime st ! j) [0..<length (avgtime st)]"
      by (rule nth_equalityI) (simp_all add: nth_list_update less_Suc_eq)
    have mi: "(map (\<lambda>j. if j < n then ?mi j else mintime st ! j) [0..<length (mintime st)])
        [n := MIN_macro (map (\<lambda>j. if j < n then ?mi j else mintime st ! j) [0..<length (mintime st)] ! n) (tm n k)]
      = map (\<lambda>j. if j < Suc n then ?mi j else mintime st ! j) [0..<length (mintime st)]"
      by (rule nth_equalityI) (simp_all add: nth_list_update less_Suc_eq)
    have ma: "(map (\<lambda>j. if j < n then ?ma j else maxtime st ! j) [0..<length (maxtime st)])
        [n := MAX_macro (map (\<lambda>j. if j < n then ?ma j else maxtime st ! j) [0..<length (maxtime st)] ! n) (tm n k)]
      = map (\<lambda>j. if j < Suc n then ?ma j else maxtime st ! j) [0..<length (maxtime st)]"
      by (rule nth_equalityI) (simp_all add: nth_list_update less_Suc_eq)
    show ?thesis
      by (subst for_loop_Suc, simp, subst Suc)
        (simp add: accumulate_body_def a mi ma)
  qed
qed

lemma accumulate_outer:
  "for_loop 1 (Suc K) (\<lambda>k st. for_loop 0 n (accumulate_body tm k) st) st =
     st\<lparr>avgtime := map (\<lambda>j. if j < n then fold (\<lambda>k v. v + tm j k) [1..<Suc K] (avgtime st ! j)
                              else avgtime st ! j) [0..<length (avgtime st)],
        mintime := map (\<lambda>j. if j < n then fold (\<lambda>k v. MIN_macro v (tm j k)) [1..<Suc K] (mintime st ! j)
                              else mintime st ! j) [0..<length (mintime st)],
        maxtime := map (\<lambda>j. if j < n then fold (\<lambda>k v. MAX_macro v (tm j k)) [1..<Suc K] (maxtime st ! j)
                              else maxtime st ! j) [0..<length (maxtime st)]\<rparr>"
proof (induction K)
  case 0
  show ?case by (simp add: map_nth cong: if_cong)
next
  case (Suc K)
  have "for_loop 1 (Suc (Suc K)) (\<lambda>k st. for_loop 0 n (accumulate_body tm k) st) st
      = for_loop 0 n (accumulate_body tm (Suc K))
          (for_loop 1 (Suc K) (\<lambda>k st. for_loop 0 n (accumulate_body tm k) st) st)"
    by (rule for_loop_Suc) simp
  also note Suc
  finally show ?case
    by (simp add: accumulate_inner)
qed

lemma average_loop:
  "for_loop 0 n (\<lambda>j st. st\<lparr>avgtime := (avgtime st)[j := avgtime st ! j / c]\<rparr>) st =
     st\<lparr>avgtime := map (\<lambda>j. if j < n then avgtime st ! j / c else avgtime st ! j)
                       [0..<length (avgtime st)]\<rparr>"
proof (induction n)
  case 0
  show ?case by (simp add: map_nth)
next
  case (Suc n)
  have "(map (\<lambda>j. if j < n then avgtime st ! j / c else avgtime st ! j) [0..<length (avgtime st)])
        [n := map (\<lambda>j. if j < n then avgtime st ! j / c else avgtime st ! j)
                  [0..<length (avgtime st)] ! n / c]
      = map (\<lambda>j. if j < Suc n then avgtime st ! j / c else avgtime st ! j) [0..<length (avgtime st)]"
    by (rule nth_equalityI) (simp_all add: nth_list_update less_Suc_eq)
  then show ?case by (simp add: for_loop_Suc Suc)
qed

lemma fold_add_sum: "fold (\<lambda>k v. v + f k) [m..<n] (x::real) = x + (\<Sum>k = m..<n. f k)"
proof (induction n)
  case 0
  show ?case by simp
next
  case (Suc n)
  show ?case
  proof (cases "m \<le> n")
    case True
    with Suc show ?thesis by (simp add: sum.atLeastLessThan_Suc)
  next
    case False
    then show ?thesis by simp
  qed
qed

lemma fold_min_Min:
  "fold (\<lambda>k v. min v (f k)) ks (x::'a::linorder) = Min (insert x (f ` set ks))"
proof (induction ks arbitrary: x)
  case Nil
  show ?case by simp
next
  case (Cons k ks)
  have "Min (insert (min x (f k)) (f ` set ks)) = Min (insert x (insert (f k) (f ` set ks)))"
    by (cases "set ks = {}") (simp_all add: Min_insert min.assoc)
  with Cons show ?case by (simp add: insert_commute)
qed

lemma fold_max_Max:
  "fold (\<lambda>k v. max v (f k)) ks (x::'a::linorder) = Max (insert x (f ` set ks))"
proof (induction ks arbitrary: x)
  case Nil
  show ?case by simp
next
  case (Cons k ks)
  have "Max (insert (max x (f k)) (f ` set ks)) = Max (insert x (insert (f k) (f ` set ks)))"
    by (cases "set ks = {}") (simp_all add: Max_insert max.assoc)
  with Cons show ?case by (simp add: insert_commute)
qed

text \<open>The three entries of kernel \<open>j\<close>, as the loops compute them.\<close>

lemma summary_nth:
  assumes "j < NUM_KERNELS cf"
  shows "avgtime (summary cf tm) ! j =
           fold (\<lambda>k v. v + tm j k) [1..<NTIMES cf] (Fin 0) / double_of_nat (NTIMES cf - 1)"
    and "mintime (summary cf tm) ! j = fold (\<lambda>k v. MIN_macro v (tm j k)) [1..<NTIMES cf] FLT_MAX"
    and "maxtime (summary cf tm) ! j = fold (\<lambda>k v. MAX_macro v (tm j k)) [1..<NTIMES cf] (Fin 0)"
proof -
  obtain K where K: "NTIMES cf = Suc K"
    using NTIMES_ge_2 [of cf] by (cases "NTIMES cf") simp_all
  have acc: "accumulate cf tm (initial_stats cf) =
     \<lparr>avgtime = map (\<lambda>j. fold (\<lambda>k v. v + tm j k) [1..<Suc K] (Fin 0)) [0..<NUM_KERNELS cf],
      mintime = map (\<lambda>j. fold (\<lambda>k v. MIN_macro v (tm j k)) [1..<Suc K] FLT_MAX) [0..<NUM_KERNELS cf],
      maxtime = map (\<lambda>j. fold (\<lambda>k v. MAX_macro v (tm j k)) [1..<Suc K] (Fin 0)) [0..<NUM_KERNELS cf]\<rparr>"
    unfolding accumulate_def K accumulate_outer by (simp add: initial_stats_def)
  show "avgtime (summary cf tm) ! j =
           fold (\<lambda>k v. v + tm j k) [1..<NTIMES cf] (Fin 0) / double_of_nat (NTIMES cf - 1)"
    using assms unfolding summary_def average_def average_loop acc by (simp add: K)
  show "mintime (summary cf tm) ! j = fold (\<lambda>k v. MIN_macro v (tm j k)) [1..<NTIMES cf] FLT_MAX"
    using assms unfolding summary_def average_def average_loop acc by (simp add: K)
  show "maxtime (summary cf tm) ! j = fold (\<lambda>k v. MAX_macro v (tm j k)) [1..<NTIMES cf] (Fin 0)"
    using assms unfolding summary_def average_def average_loop acc by (simp add: K)
qed

text \<open>On finite \<open>double\<close>s the two macros are the minimum and the maximum of the values.\<close>

lemma is_finite_Fin: "is_finite d \<Longrightarrow> d = Fin (val d)"
  by (cases d) simp_all

lemma fold_MIN_finite:
  assumes "\<forall>k \<in> set ks. is_finite (f k)"
  shows "fold (\<lambda>k v. MIN_macro v (f k)) ks (Fin x) = Fin (Min (insert x ((\<lambda>k. val (f k)) ` set ks)))"
proof -
  have "fold (\<lambda>k v. MIN_macro v (f k)) ks (Fin x) = Fin (fold (\<lambda>k v. min v (val (f k))) ks x)"
    using assms
  proof (induction ks arbitrary: x)
    case Nil
    show ?case by simp
  next
    case (Cons k ks)
    then have "f k = Fin (val (f k))" by (simp add: is_finite_Fin)
    then have "MIN_macro (Fin x) (f k) = Fin (min x (val (f k)))"
      by (metis MIN_macro_def less_double_def dless.simps(1) min_def not_less_iff_gr_or_eq
            order.asym order_less_imp_le leD leI)
    with Cons show ?case by simp
  qed
  then show ?thesis by (simp add: fold_min_Min)
qed

lemma fold_MAX_finite:
  assumes "\<forall>k \<in> set ks. is_finite (f k)"
  shows "fold (\<lambda>k v. MAX_macro v (f k)) ks (Fin x) = Fin (Max (insert x ((\<lambda>k. val (f k)) ` set ks)))"
proof -
  have "fold (\<lambda>k v. MAX_macro v (f k)) ks (Fin x) = Fin (fold (\<lambda>k v. max v (val (f k))) ks x)"
    using assms
  proof (induction ks arbitrary: x)
    case Nil
    show ?case by simp
  next
    case (Cons k ks)
    then have "f k = Fin (val (f k))" by (simp add: is_finite_Fin)
    then have "MAX_macro (Fin x) (f k) = Fin (max x (val (f k)))"
      by (metis MAX_macro_def less_double_def dless.simps(1) max_def not_less_iff_gr_or_eq
            order.asym order_less_imp_le leD leI)
    with Cons show ?case by simp
  qed
  then show ?thesis by (simp add: fold_max_Max)
qed

lemma to_double_1: "to_double 1 = Fin 1"
  by code_simp

lemma summary_finite:
  assumes j: "j < NUM_KERNELS cf" and fin: "\<forall>k \<in> {1..<NTIMES cf}. is_finite (tm j k)"
  shows "mintime (summary cf tm) ! j =
           Fin (Min (insert (val FLT_MAX) ((\<lambda>k. val (tm j k)) ` {1..<NTIMES cf})))"
    and "maxtime (summary cf tm) ! j =
           Fin (Max (insert 0 ((\<lambda>k. val (tm j k)) ` {1..<NTIMES cf})))"
proof -
  have s: "set [1..<NTIMES cf] = {1..<NTIMES cf}" by (rule set_upt)
  from fin have f: "\<forall>k \<in> set [1..<NTIMES cf]. is_finite (tm j k)" unfolding s .
  have F: "FLT_MAX = Fin (val FLT_MAX)" by (simp add: FLT_MAX_def)
  show "mintime (summary cf tm) ! j =
           Fin (Min (insert (val FLT_MAX) ((\<lambda>k. val (tm j k)) ` {1..<NTIMES cf})))"
    unfolding summary_nth(2) [OF j] by (subst F, subst fold_MIN_finite [OF f]) (simp only: s)
  show "maxtime (summary cf tm) ! j =
           Fin (Max (insert 0 ((\<lambda>k. val (tm j k)) ` {1..<NTIMES cf})))"
    unfolding summary_nth(3) [OF j] by (subst fold_MAX_finite [OF f]) (simp only: s)
qed

lemma single_sample_summary:
  assumes j: "j < NUM_KERNELS cf"
    and h: "NTIMES cf = 2" "tm j 1 = Fin t" "is_binary64 t" "0 \<le> t" "t \<le> val FLT_MAX"
  shows "avgtime (summary cf tm) ! j = Fin t \<and> mintime (summary cf tm) ! j = Fin t
      \<and> maxtime (summary cf tm) ! j = Fin t"
proof -
  note s = summary_nth [OF j, of tm]
  have u: "[1..<NTIMES cf] = [1]" using h(1) by (simp add: upt_rec)
  from h(3) have t: "to_double t = Fin t" by (simp add: is_binary64_def)
  have "Fin 0 + Fin t = Fin t" by (simp add: plus_double_def t)
  moreover have "Fin t / double_of_nat (NTIMES cf - 1) = Fin t"
    using h(1) by (simp add: double_of_nat_def to_double_1 divide_double_def t)
  ultimately have a: "avgtime (summary cf tm) ! j = Fin t"
    unfolding s(1) u using h(2) by simp
  have "MIN_macro FLT_MAX (Fin t) = Fin t"
    using h(5) by (auto simp: MIN_macro_def FLT_MAX_def less_double_def)
  then have mi: "mintime (summary cf tm) ! j = Fin t" unfolding s(2) u using h(2) by simp
  have "MAX_macro (Fin 0) (Fin t) = Fin t"
    using h(4) by (auto simp: MAX_macro_def less_double_def)
  then have ma: "maxtime (summary cf tm) ! j = Fin t" unfolding s(3) u using h(2) by simp
  from a mi ma show ?thesis by simp
qed

text \<open>
  C4, as the code has it. For every kernel \<open>j\<close> the summary reads the trials
  \<open>1, \<dots>, NTIMES - 1\<close> only. The average is their sum, accumulated from \<open>0.0\<close> in
  the order of the trials with the addition of \<open>double\<close>s, divided as a \<open>double\<close> by
  \<open>(double)(NTIMES-1)\<close>. The minimum starts from \<open>FLT_MAX\<close> and the maximum from 0:
  for finite samples they are the least of \<open>FLT_MAX\<close> and the samples and the greatest
  of 0 and the samples, which are the minimum and the maximum of the samples when these
  are in \<open>[0, FLT_MAX]\<close>. With \<open>NTIMES = 2\<close> and such a sample the three are
  \<open>times[j][1]\<close>.
\<close>

theorem summary_over_trials_from_1:
  assumes "j < NUM_KERNELS cf"
  shows "avgtime (summary cf tm) ! j =
           fold (\<lambda>k v. v + tm j k) [1..<NTIMES cf] (Fin 0) / double_of_nat (NTIMES cf - 1)
     \<and> mintime (summary cf tm) ! j = fold (\<lambda>k v. MIN_macro v (tm j k)) [1..<NTIMES cf] FLT_MAX
     \<and> maxtime (summary cf tm) ! j = fold (\<lambda>k v. MAX_macro v (tm j k)) [1..<NTIMES cf] (Fin 0)
     \<and> ((\<forall>k \<in> {1..<NTIMES cf}. is_finite (tm j k)) \<longrightarrow>
            mintime (summary cf tm) ! j =
              Fin (Min (insert (val FLT_MAX) ((\<lambda>k. val (tm j k)) ` {1..<NTIMES cf})))
          \<and> maxtime (summary cf tm) ! j =
              Fin (Max (insert 0 ((\<lambda>k. val (tm j k)) ` {1..<NTIMES cf}))))
     \<and> ((\<forall>k \<in> {1..<NTIMES cf}. is_finite (tm j k) \<and> 0 \<le> val (tm j k)
                                   \<and> val (tm j k) \<le> val FLT_MAX) \<longrightarrow>
            mintime (summary cf tm) ! j = Fin (Min ((\<lambda>k. val (tm j k)) ` {1..<NTIMES cf}))
          \<and> maxtime (summary cf tm) ! j = Fin (Max ((\<lambda>k. val (tm j k)) ` {1..<NTIMES cf})))
     \<and> (NTIMES cf = 2 \<and> tm j 1 = Fin t \<and> is_binary64 t \<and> 0 \<le> t \<and> t \<le> val FLT_MAX \<longrightarrow>
            avgtime (summary cf tm) ! j = tm j 1
          \<and> mintime (summary cf tm) ! j = tm j 1
          \<and> maxtime (summary cf tm) ! j = tm j 1)"
proof -
  note s = summary_nth [OF assms, of tm]
  let ?S = "(\<lambda>k. val (tm j k)) ` {1..<NTIMES cf}"
  have ne: "?S \<noteq> {}" "finite ?S" using NTIMES_ge_2 [of cf] by auto
  have rng: "mintime (summary cf tm) ! j = Fin (Min ?S) \<and> maxtime (summary cf tm) ! j = Fin (Max ?S)"
    if h: "\<forall>k \<in> {1..<NTIMES cf}. is_finite (tm j k) \<and> 0 \<le> val (tm j k)
                                   \<and> val (tm j k) \<le> val FLT_MAX"
  proof -
    from h have fin: "\<forall>k \<in> {1..<NTIMES cf}. is_finite (tm j k)" by blast
    from h have "\<forall>v \<in> ?S. 0 \<le> v \<and> v \<le> val FLT_MAX" by blast
    then have b: "Min ?S \<le> val FLT_MAX" "0 \<le> Max ?S"
      using ne by (auto simp: Min_le_iff Max_ge_iff)
    have "Min (insert (val FLT_MAX) ?S) = min (val FLT_MAX) (Min ?S)"
      by (rule Min_insert [OF ne(2,1)])
    moreover have "Max (insert 0 ?S) = max 0 (Max ?S)" by (rule Max_insert [OF ne(2,1)])
    ultimately have "Min (insert (val FLT_MAX) ?S) = Min ?S" "Max (insert 0 ?S) = Max ?S"
      using b by (simp_all only: min_absorb2 max_absorb2)
    with summary_finite [of j cf tm, OF assms fin] show ?thesis by simp
  qed
  have two: "avgtime (summary cf tm) ! j = tm j 1 \<and> mintime (summary cf tm) ! j = tm j 1
      \<and> maxtime (summary cf tm) ! j = tm j 1"
    if h: "NTIMES cf = 2" "tm j 1 = Fin t" "is_binary64 t" "0 \<le> t" "t \<le> val FLT_MAX"
    using single_sample_summary [of j cf tm t, OF assms h] h(2) by simp
  from s summary_finite [of j cf tm, OF assms] rng two show ?thesis by blast
qed

theorem summary_over_trials_from_1_witness:
  "0 < NUM_KERNELS cfg_two_trials \<and> NTIMES cfg_two_trials = 2
   \<and> tm_distinct 0 1 = Fin (5 / 8) \<and> is_binary64 (5 / 8) \<and> 0 \<le> (5 / 8 :: real)
   \<and> 5 / 8 \<le> val FLT_MAX
   \<and> tm_distinct 0 0 = Fin (1 / 8)
   \<and> avgtime (summary cfg_two_trials tm_distinct) ! 0 = Fin (5 / 8)
   \<and> mintime (summary cfg_two_trials tm_distinct) ! 0 = Fin (5 / 8)
   \<and> maxtime (summary cfg_two_trials tm_distinct) ! 0 = Fin (5 / 8)"
proof -
  have h: "0 < NUM_KERNELS cfg_two_trials" by (simp add: NUM_KERNELS_def)
  have n: "NTIMES cfg_two_trials = 2" by (simp add: NTIMES_def cfg_two_trials_def)
  have t: "tm_distinct 0 0 = Fin (1 / 8)" "tm_distinct 0 1 = Fin (5 / 8)"
    "0 \<le> (5 / 8 :: real)" "5 / 8 \<le> val FLT_MAX"
    by (simp_all add: tm_distinct_def FLT_MAX_def)
  have b: "is_binary64 (5 / 8)" by code_simp
  from summary_over_trials_from_1 [OF h, of tm_distinct "5 / 8"] n t b
  have "avgtime (summary cfg_two_trials tm_distinct) ! 0 = tm_distinct 0 1
      \<and> mintime (summary cfg_two_trials tm_distinct) ! 0 = tm_distinct 0 1
      \<and> maxtime (summary cfg_two_trials tm_distinct) ! 0 = tm_distinct 0 1"
    by blast
  then have "avgtime (summary cfg_two_trials tm_distinct) ! 0 = Fin (5 / 8)
      \<and> mintime (summary cfg_two_trials tm_distinct) ! 0 = Fin (5 / 8)
      \<and> maxtime (summary cfg_two_trials tm_distinct) ! 0 = Fin (5 / 8)"
    unfolding t(2) .
  with h n t b show ?thesis by blast
qed

text \<open>
  C4 without the range of the sample: with two trials and the time \<open>-1\<close> in trial 1,
  the maximum that the summary reports for Copy is 0, not the sample.
\<close>

theorem summary_negative_sample_counterexample:
  "NTIMES cfg_two_trials = 2 \<and> tm_backwards 0 1 = Fin (- 1)
   \<and> avgtime (summary cfg_two_trials tm_backwards) ! 0 = Fin (- 1)
   \<and> mintime (summary cfg_two_trials tm_backwards) ! 0 = Fin (- 1)
   \<and> maxtime (summary cfg_two_trials tm_backwards) ! 0 = Fin 0"
  by code_simp




section \<open>The result of \<open>checktick\<close>\<close>

lemma spin_wait_Some:
  assumes "n \<le> m" and "\<not> clk m - t1 < microsecond"
  shows "\<exists>t2 n'. spin_wait clk t1 n = Some (t2, n')"
  using assms
proof (induction "m - n" arbitrary: n)
  case 0
  then have "n = m" by simp
  with 0 show ?case by (subst spin_wait.simps) (simp add: Let_def)
next
  case (Suc d)
  show ?case
  proof (cases "clk n - t1 < microsecond")
    case True
    from Suc have "d = m - Suc n" "Suc n \<le> m" by simp_all
    from Suc(1) [OF this Suc(4)] True show ?thesis
      by (subst spin_wait.simps) (simp add: Let_def)
  next
    case False
    then show ?thesis by (subst spin_wait.simps) (simp add: Let_def)
  qed
qed

lemma spin_wait_result:
  assumes "spin_wait clk t1 n = Some y"
  shows "n < snd y \<and> fst y = clk (snd y - 1) \<and> \<not> fst y - t1 < microsecond"
proof (rule spin_wait.raw_induct
    [where P = "\<lambda>clk t1 n y. n < snd y \<and> fst y = clk (snd y - 1) \<and> \<not> fst y - t1 < microsecond",
      OF _ assms])
  fix spin clk t1 n and y :: "double \<times> nat"
  assume ih: "\<And>clk t1 n y. spin clk t1 n = Some y \<Longrightarrow>
      n < snd y \<and> fst y = clk (snd y - 1) \<and> \<not> fst y - t1 < microsecond"
    and eq: "(let t2 = clk n in if t2 - t1 < microsecond then spin clk t1 (Suc n)
               else Some (t2, Suc n)) = Some y"
  show "n < snd y \<and> fst y = clk (snd y - 1) \<and> \<not> fst y - t1 < microsecond"
  proof (cases "clk n - t1 < microsecond")
    case True
    with eq have "spin clk t1 (Suc n) = Some y" by (simp add: Let_def)
    from ih [OF this] Suc_lessD [of n "snd y"] show ?thesis by blast
  next
    case False
    with eq have "y = (clk n, Suc n)" by (simp add: Let_def)
    with False show ?thesis by simp
  qed
qed

text \<open>A loop whose body fails only by an undefined conversion.\<close>

lemma fold_obind_partial:
  "fold (obind (\<lambda>i m. case g i of None \<Rightarrow> None | Some d \<Rightarrow> Some (h m d))) ks (Some x) =
     (if \<forall>i \<in> set ks. g i \<noteq> None then Some (fold (\<lambda>i m. h m (the (g i))) ks x) else None)"
proof (induction ks arbitrary: x)
  case Nil
  show ?case by simp
next
  case (Cons k ks)
  show ?case
  proof (cases "g k")
    case None
    then show ?thesis by simp
  next
    case (Some d)
    with Cons [of "h x d"] show ?thesis by simp
  qed
qed

lemma min_delta_eq:
  "min_delta tf =
     (if \<forall>i \<in> {1..<checktick_M}. scaled_delta tf i \<noteq> None
      then Some (Min (insert 1000000
             ((\<lambda>i. max (the (scaled_delta tf i)) 0) ` {1..<checktick_M})))
      else None)"
proof -
  have "min_delta tf =
      fold (obind (\<lambda>i m. case scaled_delta tf i of None \<Rightarrow> None
                          | Some d \<Rightarrow> Some (min m (max d 0)))) [1..<checktick_M] (Some 1000000)"
    by (simp add: min_delta_def for_loop_opt_fold scaled_delta_def MIN_macro_min MAX_macro_max
          cong: option.case_cong)
  also have "\<dots> = (if \<forall>i \<in> set [1..<checktick_M]. scaled_delta tf i \<noteq> None
      then Some (fold (\<lambda>i m. min m (max (the (scaled_delta tf i)) 0)) [1..<checktick_M] 1000000)
      else None)"
    by (rule fold_obind_partial)
  also have "fold (\<lambda>i m. min m (max (the (scaled_delta tf i)) 0)) [1..<checktick_M] 1000000
      = Min (insert 1000000 ((\<lambda>i. max (the (scaled_delta tf i)) 0) ` set [1..<checktick_M]))"
    by (rule fold_min_Min)
  finally show ?thesis by simp
qed

lemma min_delta_range:
  assumes "min_delta tf = Some r"
  shows "0 \<le> r \<and> r \<le> 1000000"
proof -
  let ?S = "(\<lambda>i. max (the (scaled_delta tf i)) 0) ` {1..<checktick_M}"
  from assms have r: "r = Min (insert 1000000 ?S)"
    by (simp add: min_delta_eq split: if_splits)
  have fin: "finite (insert 1000000 ?S)" by simp
  have "\<forall>v \<in> insert 1000000 ?S. 0 \<le> v" by auto
  then have "0 \<le> Min (insert 1000000 ?S)" using fin by (subst Min_ge_iff) simp_all
  moreover have "Min (insert 1000000 ?S) \<le> 1000000" using fin by (intro Min_le) simp_all
  ultimately show ?thesis by (simp add: r)
qed

lemma collect_body_Some:
  assumes "clock_advances clk"
  shows "\<exists>st'. collect_body clk i st = Some st'"
proof -
  obtain tf n where st: "st = (tf, n)" by (cases st)
  from assms obtain m where m: "n < m" "\<not> clk m - clk n < microsecond"
    unfolding clock_advances_def by blast
  then have "Suc n \<le> m" by simp
  from spin_wait_Some [of "Suc n" m clk "clk n", OF this m(2)] show ?thesis
    by (auto simp: collect_body_def st Let_def)
qed

lemma for_loop_opt_total:
  assumes "\<And>i st. \<exists>st'. body i st = Some st'"
  shows "\<exists>st'. for_loop_opt 0 n body st = Some st'"
proof (induction n)
  case 0
  show ?case by simp
next
  case (Suc n)
  then obtain t where "for_loop_opt 0 n body st = Some t" by blast
  with assms [of n t] show ?case by (simp add: for_loop_opt_Suc)
qed

lemma collect_loop_ticks:
  assumes "for_loop_opt 0 k (collect_body clk) (tf0, n0) = Some (tf, n)"
  shows "length tf = length tf0
     \<and> (\<forall>i<k. i < length tf0 \<longrightarrow>
           (\<exists>m' m. m' < m \<and> tf ! i = clk m \<and> \<not> clk m - clk m' < microsecond))"
  using assms
proof (induction k arbitrary: tf n)
  case 0
  then show ?case by simp
next
  case (Suc k)
  from Suc.prems obtain tf1 n1 where
    l: "for_loop_opt 0 k (collect_body clk) (tf0, n0) = Some (tf1, n1)"
    and b: "collect_body clk k (tf1, n1) = Some (tf, n)"
    by (auto simp: for_loop_opt_Suc split: option.splits)
  from b obtain t2 where sp: "spin_wait clk (clk n1) (Suc n1) = Some (t2, n)"
    and tf: "tf = tf1[k := t2]"
    by (auto simp: collect_body_def Let_def split: option.splits)
  from spin_wait_result [OF sp, unfolded fst_conv snd_conv]
  have t2: "Suc n1 < n" "t2 = clk (n - 1)" "\<not> t2 - clk n1 < microsecond" by blast+
  from Suc.IH [OF l] have ih: "length tf1 = length tf0"
    "\<forall>i<k. i < length tf0 \<longrightarrow>
       (\<exists>m' m. m' < m \<and> tf1 ! i = clk m \<and> \<not> clk m - clk m' < microsecond)" by simp_all
  have "\<exists>m' m. m' < m \<and> tf ! i = clk m \<and> \<not> clk m - clk m' < microsecond"
    if "i < Suc k" "i < length tf0" for i
  proof (cases "i = k")
    case True
    with that ih(1) have "tf ! i = clk (n - 1)" by (simp add: tf t2(2))
    moreover have "n1 < n - 1" using t2(1) by simp
    ultimately show ?thesis using t2(2,3) by auto
  next
    case False
    with that have "i < k" by simp
    with ih(2) that(2) False show ?thesis by (simp add: tf)
  qed
  then show ?case using ih(1) by (simp add: tf)
qed

text \<open>
  C6. For every clock, when \<open>checktick\<close> returns a value, it has collected 20
  timestamps, each a reading of the clock that ended a wait (its difference from an
  earlier reading is not below the microsecond), every conversion to \<open>int\<close> was defined,
  and the value is the least of 1000000 and the differences of consecutive timestamps, in
  microseconds as the arithmetic of \<open>double\<close> gives them, without their fractions and
  with 0 for a negative one: an integer from 0 to 1000000. For every clock that advances
  the waits end: the call returns a value or has a conversion that is undefined, and it
  returns a value when the conversions of the timestamps collected are defined. On a
  clock that stops, a wait does not end.
\<close>

theorem checktick_result:
  "(\<forall>r. checktick clk = Some (Inr r) \<longrightarrow>
      (\<exists>tf n. collect clk = Some (tf, n) \<and> length tf = checktick_M
         \<and> (\<forall>i<checktick_M. \<exists>m' m. m' < m \<and> tf ! i = clk m
                                  \<and> \<not> clk m - clk m' < microsecond)
         \<and> (\<forall>i \<in> {1..<checktick_M}.
               int_cast (Fin 1000000 * (tf ! i - tf ! (i - 1))) \<noteq> None)
         \<and> r = Min (insert 1000000
                 ((\<lambda>i. max (the (int_cast (Fin 1000000 * (tf ! i - tf ! (i - 1))))) 0)
                    ` {1..<checktick_M})))
      \<and> 0 \<le> r \<and> r \<le> 1000000)
   \<and> (clock_advances clk \<longrightarrow> (\<exists>out. checktick clk = Some out))
   \<and> (\<forall>tf n. collect clk = Some (tf, n)
         \<and> (\<forall>i \<in> {1..<checktick_M}.
               int_cast (Fin 1000000 * (tf ! i - tf ! (i - 1))) \<noteq> None)
         \<longrightarrow> (\<exists>r. checktick clk = Some (Inr r)))"
proof (intro conjI allI impI)
  fix r
  assume r: "checktick clk = Some (Inr r)"
  then obtain tf n where c: "collect clk = Some (tf, n)" and rd: "min_delta tf = Some r"
    by (auto simp: checktick_def split: option.splits)
  from collect_loop_ticks [OF c [unfolded collect_def]]
  have "length tf = checktick_M"
    "\<forall>i<checktick_M. \<exists>m' m. m' < m \<and> tf ! i = clk m \<and> \<not> clk m - clk m' < microsecond"
    by simp_all
  moreover from rd have "\<forall>i \<in> {1..<checktick_M}. scaled_delta tf i \<noteq> None"
    "r = Min (insert 1000000 ((\<lambda>i. max (the (scaled_delta tf i)) 0) ` {1..<checktick_M}))"
    by (simp_all add: min_delta_eq split: if_splits)
  ultimately show "\<exists>tf n. collect clk = Some (tf, n) \<and> length tf = checktick_M
         \<and> (\<forall>i<checktick_M. \<exists>m' m. m' < m \<and> tf ! i = clk m
                                  \<and> \<not> clk m - clk m' < microsecond)
         \<and> (\<forall>i \<in> {1..<checktick_M}.
               int_cast (Fin 1000000 * (tf ! i - tf ! (i - 1))) \<noteq> None)
         \<and> r = Min (insert 1000000
                 ((\<lambda>i. max (the (int_cast (Fin 1000000 * (tf ! i - tf ! (i - 1))))) 0)
                    ` {1..<checktick_M}))"
    using c unfolding scaled_delta_def by blast
  from min_delta_range [OF rd] show "0 \<le> r" "r \<le> 1000000" by simp_all
next
  assume "clock_advances clk"
  then have "\<exists>st'. collect_body clk i st = Some st'" for i st
    by (rule collect_body_Some)
  from for_loop_opt_total [of "collect_body clk", OF this]
  obtain st' where "collect clk = Some st'" unfolding collect_def by blast
  then show "\<exists>out. checktick clk = Some out"
    by (cases st') (simp add: checktick_def split: option.splits)
next
  fix tf n
  assume "collect clk = Some (tf, n)
         \<and> (\<forall>i \<in> {1..<checktick_M}.
               int_cast (Fin 1000000 * (tf ! i - tf ! (i - 1))) \<noteq> None)"
  then have c: "collect clk = Some (tf, n)"
    and d: "\<forall>i \<in> {1..<checktick_M}. scaled_delta tf i \<noteq> None"
    unfolding scaled_delta_def by simp_all
  from d obtain r where "min_delta tf = Some r" by (simp add: min_delta_eq)
  with c show "\<exists>r. checktick clk = Some (Inr r)" by (simp add: checktick_def)
qed

theorem checktick_result_witness:
  "clock_advances clk_ticks \<and> checktick clk_ticks = Some (Inr 2)"
proof -
  have a: "clock_advances clk_ticks"
    unfolding clock_advances_def
  proof
    fix n
    have d: "real (n + 2) / 2 ^ 20 + - (real n / 2 ^ 20) = 1 / 2 ^ 19"
      by (simp add: field_simps)
    have e: "\<not> to_double (1 / 2 ^ 19) < microsecond" by code_simp
    have "clk_ticks (n + 2) - clk_ticks n = to_double (1 / 2 ^ 19)"
      unfolding clk_ticks_def minus_double_def dneg.simps dadd.simps d ..
    with e have "n < n + 2 \<and> \<not> clk_ticks (n + 2) - clk_ticks n < microsecond"
      by simp
    then show "\<exists>m>n. \<not> clk_ticks m - clk_ticks n < microsecond" by blast
  qed
  with checktick_result [of clk_ticks]
  obtain out where "checktick clk_ticks = Some out" by blast
  moreover have "checktick clk_ticks = Some (Inr 2)" by code_simp
  ultimately show ?thesis using a by simp
qed

section \<open>The verdicts of \<open>checkSTREAMresults\<close>\<close>

text \<open>
  C5. The average error of \<open>e\<close> is the sum over the \<open>STREAM_INDEX_ARRAY_SIZE\<close>
  elements read, divided by \<open>STREAM_ARRAY_SIZE\<close>. With one index, two elements and
  \<open>double\<close> elements the buffers of \<open>main\<close> are as in \<open>bufs_e_off\<close> but for
  \<open>e[0]\<close>; the expected value is 450; the mean absolute difference of the one element
  read, divided by 450, is above \<open>epsilon\<close>; the function halves it and reports no
  failure.
\<close>

theorem e_average_divides_by_array_size:
  "map_option (\<lambda>s. s\<lparr>arr_e := (arr_e s)[0 := Fin (450 + 297 / 2 ^ 42)]\<rparr>)
       (main_buffers double_type cfg_one_index rnd_small) = Some bufs_e_off
   \<and> ej (expected_values double_type cfg_one_index) = Some (Fin 450)
   \<and> map val (checked_elements_e cfg_one_index bufs_e_off) = [450 + 297 / 2 ^ 42]
   \<and> spec_rel_err (map val (checked_elements_e cfg_one_index bufs_e_off)) 450 = 297 / 2 ^ 42 / 450
   \<and> val (epsilon cfg_one_index)
        < spec_rel_err (map val (checked_elements_e cfg_one_index bufs_e_off)) 450
   \<and> map_option eAvgErr (checkSTREAMresults double_type cfg_one_index bufs_e_off)
        = Some (Some (Fin (297 / 2 ^ 42 / 2)))
   \<and> map_option failed_e (checkSTREAMresults double_type cfg_one_index bufs_e_off) = Some False"
  by code_simp

end
